theory Spec2Isabelle
  imports Complex_Main
begin

section \<open>GBILI: data model\<close>

text \<open>
  The program is \<^verbatim>\<open>src/gbili.py\<close> (Python 2). Object ids are the row numbers of the
  data table, \<^verbatim>\<open>range(0, obj_count)\<close>; labeled ids are the integers read from the
  labels file, so they may be negative or out of range. A feature vector is a row of the
  table; the table is a matrix, every row of the same length.

  Floating-point values are idealised: a float is a real number or \<open>+\<infinity>\<close>
  (\<^verbatim>\<open>float('inf')\<close>, the start value of the labeled scan). Rounding is not modelled.
\<close>

type_synonym vec = "real list"

datatype fl = Fin real | PInf

instantiation fl :: linorder
begin

fun less_eq_fl :: "fl \<Rightarrow> fl \<Rightarrow> bool" where
  "less_eq_fl (Fin x) (Fin y) = (x \<le> y)"
| "less_eq_fl PInf (Fin y) = False"
| "less_eq_fl a PInf = True"

definition less_fl :: "fl \<Rightarrow> fl \<Rightarrow> bool" where
  "less_fl a b = (a \<le> b \<and> \<not> b \<le> a)"

instance
proof
  fix x y z :: fl
  show "(x < y) = (x \<le> y \<and> \<not> y \<le> x)"
    by (simp add: less_fl_def)
  show "x \<le> x"
    by (cases x) simp_all
  show "x \<le> y \<Longrightarrow> y \<le> z \<Longrightarrow> x \<le> z"
    by (cases x; cases y; cases z) simp_all
  show "x \<le> y \<Longrightarrow> y \<le> x \<Longrightarrow> x = y"
    by (cases x; cases y) simp_all
  show "x \<le> y \<or> y \<le> x"
    by (cases x; cases y) auto
qed

end

text \<open>Float addition \<^verbatim>\<open>d1 + d2\<close> and the weight \<^verbatim>\<open>1 / (1 + d1)\<close> of line 92. The
  operands are numpy floats, so a zero divisor gives \<open>inf\<close> (with a warning), not an
  exception, and \<open>1 / inf\<close> is \<open>0.0\<close>.\<close>

fun fl_add :: "fl \<Rightarrow> fl \<Rightarrow> fl" where
  "fl_add (Fin x) (Fin y) = Fin (x + y)"
| "fl_add a b = PInf"

fun weight :: "fl \<Rightarrow> fl" where
  "weight (Fin d1) = (if 1 + d1 = 0 then PInf else Fin (1 / (1 + d1)))"
| "weight PInf = Fin 0"

text \<open>The exceptions the program can raise. \<open>InsufficientDataError\<close> is never raised by
  \<^verbatim>\<open>gbili.py\<close> itself; it is what a nearest-neighbour index that refuses a query for more
  points than it holds would raise.\<close>

datatype error = IndexError | KeyError | ValueError | ZeroDivisionError
  | InsufficientDataError

text \<open>\<^verbatim>\<open>spatial.distance.euclidean(u, v)\<close>.\<close>

definition euclidean :: "vec \<Rightarrow> vec \<Rightarrow> real" where
  "euclidean u v = sqrt (\<Sum>(a, b)\<leftarrow>zip u v. (a - b)\<^sup>2)"

text \<open>\<^verbatim>\<open>data[i]\<close> on the numpy table: a negative index counts from the end, an index out of
  range raises \<open>IndexError\<close>.\<close>

definition row :: "vec list \<Rightarrow> int \<Rightarrow> error + vec" where
  "row data i =
     (let n = int (length data) in
      if 0 \<le> i \<and> i < n then Inr (data ! nat i)
      else if - n \<le> i \<and> i < 0 then Inr (data ! nat (n + i))
      else Inl IndexError)"

text \<open>The two dictionaries of phase 1: \<^verbatim>\<open>buff[obj] = (min_label, min_dist)\<close> and
  \<^verbatim>\<open>dic_knn[obj] = (dists, indexs)\<close>.\<close>

type_synonym buff = "nat \<rightharpoonup> (int \<times> fl)"
type_synonym knn = "fl list \<times> nat list"
type_synonym dic_knn = "nat \<rightharpoonup> knn"

text \<open>An edge \<^verbatim>\<open>(obj, nn, 1 / (1 + d1))\<close>.\<close>

type_synonym edge = "nat \<times> nat \<times> fl"

text \<open>\<^verbatim>\<open>kdtree.query(obj_attrs, k)\<close> belongs to scipy, not to this program: the index is a
  parameter of the model, a function from the query vector and \<open>k\<close> to the pair
  \<^verbatim>\<open>(dists, indexs)\<close>, which may raise.\<close>

type_synonym kdtree = "vec \<Rightarrow> int \<Rightarrow> error + knn"

section \<open>Phase 1: \<^verbatim>\<open>labeled_nearest\<close>\<close>

text \<open>Lines 48 to 53: the scan of \<^verbatim>\<open>labeled_set\<close>, carrying \<^verbatim>\<open>(min_label, min_dist)\<close>.\<close>

fun scan_labeled :: "vec list \<Rightarrow> vec \<Rightarrow> int list \<Rightarrow> int \<times> fl \<Rightarrow> error + (int \<times> fl)" where
  "scan_labeled data obj_attrs [] acc = Inr acc"
| "scan_labeled data obj_attrs (obj_labeled # rest) (min_label, min_dist) =
     (case row data obj_labeled of
        Inl e \<Rightarrow> Inl e
      | Inr obj_labeled_attrs \<Rightarrow>
          (let dist = Fin (euclidean obj_attrs obj_labeled_attrs) in
           if dist < min_dist then scan_labeled data obj_attrs rest (obj_labeled, dist)
           else scan_labeled data obj_attrs rest (min_label, min_dist)))"

text \<open>Lines 45 to 60: the body of the loop for one \<^verbatim>\<open>obj\<close>; it yields the two entries
  written for \<^verbatim>\<open>obj\<close>. The slice \<^verbatim>\<open>[1:]\<close> drops the first result of the query.\<close>

definition nearest_obj ::
  "kdtree \<Rightarrow> vec list \<Rightarrow> int list \<Rightarrow> int \<Rightarrow> nat \<Rightarrow> error + ((int \<times> fl) \<times> knn)" where
  "nearest_obj kdtree data labeled_set k1 obj =
     (case row data (int obj) of
        Inl e \<Rightarrow> Inl e
      | Inr obj_attrs \<Rightarrow>
          (case scan_labeled data obj_attrs labeled_set (- 1, PInf) of
             Inl e \<Rightarrow> Inl e
           | Inr nearest \<Rightarrow>
               (case kdtree obj_attrs (k1 + 1) of
                  Inl e \<Rightarrow> Inl e
                | Inr (dists, indexs) \<Rightarrow> Inr (nearest, (tl dists, tl indexs)))))"

fun labeled_nearest_loop ::
  "kdtree \<Rightarrow> vec list \<Rightarrow> int list \<Rightarrow> int \<Rightarrow> nat list \<Rightarrow> buff \<times> dic_knn
     \<Rightarrow> error + (buff \<times> dic_knn)" where
  "labeled_nearest_loop kdtree data labeled_set k1 [] st = Inr st"
| "labeled_nearest_loop kdtree data labeled_set k1 (obj # rest) (buff, dic_knn) =
     (case nearest_obj kdtree data labeled_set k1 obj of
        Inl e \<Rightarrow> Inl e
      | Inr (nearest, nn) \<Rightarrow>
          labeled_nearest_loop kdtree data labeled_set k1 rest
            (buff(obj \<mapsto> nearest), dic_knn(obj \<mapsto> nn)))"

text \<open>What the worker sends: the two dictionaries, or nothing when it raised.\<close>

definition labeled_nearest ::
  "nat list \<Rightarrow> vec list \<Rightarrow> int list \<Rightarrow> kdtree \<Rightarrow> int \<Rightarrow> error + (buff \<times> dic_knn)" where
  "labeled_nearest obj_subset data labeled_set kdtree k1 =
     labeled_nearest_loop kdtree data labeled_set k1 obj_subset (Map.empty, Map.empty)"

section \<open>Phase 2: \<^verbatim>\<open>gbili\<close>\<close>

text \<open>Lines 81 to 92: the loop over \<^verbatim>\<open>enumerate(obj_knn[1])\<close>, carrying
  \<^verbatim>\<open>(obj_dists, obj_ew)\<close>. \<open>dists\<close> is \<^verbatim>\<open>obj_knn[0]\<close>.\<close>

fun candidates ::
  "nat \<Rightarrow> fl list \<Rightarrow> buff \<Rightarrow> dic_knn \<Rightarrow> (nat \<times> nat) list \<Rightarrow> fl list \<times> edge list
     \<Rightarrow> error + (fl list \<times> edge list)" where
  "candidates obj dists buff dic_knn [] acc = Inr acc"
| "candidates obj dists buff dic_knn ((i, nn) # rest) (obj_dists, obj_ew) =
     (if obj = nn then candidates obj dists buff dic_knn rest (obj_dists, obj_ew)
      else
        (case dic_knn nn of
           None \<Rightarrow> Inl KeyError
         | Some nn_knn \<Rightarrow>
             if obj \<in> set (snd nn_knn) then
               (if i < length dists then
                  (let d1 = dists ! i in
                   case buff nn of
                     None \<Rightarrow> Inl KeyError
                   | Some (labeled, d2) \<Rightarrow>
                       candidates obj dists buff dic_knn rest
                         (obj_dists @ [fl_add d1 d2], obj_ew @ [(obj, nn, weight d1)]))
                else Inl IndexError)
             else candidates obj dists buff dic_knn rest (obj_dists, obj_ew)))"

text \<open>The slice \<^verbatim>\<open>xs[:k]\<close>: a negative \<open>k\<close> drops the last \<open>-k\<close> elements.\<close>

definition slice_to :: "int \<Rightarrow> 'a list \<Rightarrow> 'a list" where
  "slice_to k xs = (if 0 \<le> k then take (nat k) xs else take (length xs - nat (- k)) xs)"

text \<open>Lines 94 and 95: \<^verbatim>\<open>ew.append(obj_ew[idx])\<close> for each selected index.\<close>

fun emit :: "edge list \<Rightarrow> nat list \<Rightarrow> edge list \<Rightarrow> error + edge list" where
  "emit obj_ew [] ew = Inr ew"
| "emit obj_ew (idx # rest) ew =
     (if idx < length obj_ew then emit obj_ew rest (ew @ [obj_ew ! idx])
      else Inl IndexError)"

text \<open>\<^verbatim>\<open>np.argsort\<close> belongs to numpy; its default sort is not stable, so the order it gives
  to equal scores is not fixed by this program. It is a parameter of the model, and
  \<open>argsort_ok\<close> is what is assumed of it: the result is a permutation of the positions that
  puts the values in ascending order.\<close>

type_synonym argsort = "fl list \<Rightarrow> nat list"

definition argsort_ok :: "argsort \<Rightarrow> bool" where
  "argsort_ok argsort =
     (\<forall>xs. distinct (argsort xs) \<and> set (argsort xs) = {0..<length xs}
           \<and> sorted (map ((!) xs) (argsort xs)))"

text \<open>Lines 77 to 95: the body of the loop for one \<^verbatim>\<open>obj\<close>, appending to \<^verbatim>\<open>ew\<close>.\<close>

definition gbili_obj ::
  "argsort \<Rightarrow> int \<Rightarrow> buff \<Rightarrow> dic_knn \<Rightarrow> nat \<Rightarrow> edge list \<Rightarrow> error + edge list" where
  "gbili_obj argsort k2 buff dic_knn obj ew =
     (case dic_knn obj of
        None \<Rightarrow> Inl KeyError
      | Some obj_knn \<Rightarrow>
          (case candidates obj (fst obj_knn) buff dic_knn
                  (zip [0..<length (snd obj_knn)] (snd obj_knn)) ([], []) of
             Inl e \<Rightarrow> Inl e
           | Inr (obj_dists, obj_ew) \<Rightarrow> emit obj_ew (slice_to k2 (argsort obj_dists)) ew))"

fun gbili_loop ::
  "argsort \<Rightarrow> int \<Rightarrow> buff \<Rightarrow> dic_knn \<Rightarrow> nat list \<Rightarrow> edge list \<Rightarrow> error + edge list" where
  "gbili_loop argsort k2 buff dic_knn [] ew = Inr ew"
| "gbili_loop argsort k2 buff dic_knn (obj # rest) ew =
     (case gbili_obj argsort k2 buff dic_knn obj ew of
        Inl e \<Rightarrow> Inl e
      | Inr ew' \<Rightarrow> gbili_loop argsort k2 buff dic_knn rest ew')"

definition gbili ::
  "argsort \<Rightarrow> nat list \<Rightarrow> int \<Rightarrow> buff \<Rightarrow> dic_knn \<Rightarrow> error + edge list" where
  "gbili argsort obj_subset k2 buff dic_knn = gbili_loop argsort k2 buff dic_knn obj_subset []"

section \<open>The main process\<close>

text \<open>\<^verbatim>\<open>xrange(0, stop, step)\<close>: a zero step raises \<open>ValueError\<close>, a negative step yields
  nothing, a positive step yields \<open>0, step, 2 * step, ...\<close> below \<open>stop\<close>.\<close>

definition xrange0 :: "nat \<Rightarrow> int \<Rightarrow> error + nat list" where
  "xrange0 stop step =
     (if step = 0 then Inl ValueError
      else if step < 0 then Inr []
      else Inr (map (\<lambda>j. j * nat step) [0..<(stop + nat step - 1) div nat step]))"

text \<open>The slice \<^verbatim>\<open>xs[i:j]\<close> for \<open>0 \<le> i \<le> j\<close>; the end is cut at the length of the list.\<close>

definition slice :: "nat \<Rightarrow> nat \<Rightarrow> 'a list \<Rightarrow> 'a list" where
  "slice i j xs = drop i (take j xs)"

text \<open>Lines 158 to 164: the dictionaries received from the phase 1 workers are merged with
  \<^verbatim>\<open>update\<close>, in the order the workers were started. A worker that raised has sent nothing:
  \<^verbatim>\<open>recv\<close> yields no result and the main process goes no further.\<close>

fun collect1 :: "(error + (buff \<times> dic_knn)) list \<Rightarrow> buff \<times> dic_knn \<Rightarrow> error + (buff \<times> dic_knn)" where
  "collect1 [] acc = Inr acc"
| "collect1 (r # rs) (buff, dic_knn) =
     (case r of
        Inl e \<Rightarrow> Inl e
      | Inr (buff_aux, dic_knn_aux) \<Rightarrow> collect1 rs (buff ++ buff_aux, dic_knn ++ dic_knn_aux))"

text \<open>Lines 176 to 181: the edges received from the phase 2 workers are appended in the same
  order. The model keeps the list of edges; the text written to the output file has one line
  per edge of this list, in this order.\<close>

fun collect2 :: "(error + edge list) list \<Rightarrow> edge list \<Rightarrow> error + edge list" where
  "collect2 [] acc = Inr acc"
| "collect2 (r # rs) acc =
     (case r of
        Inl e \<Rightarrow> Inl e
      | Inr ew \<Rightarrow> collect2 rs (acc @ ew))"

text \<open>How a run ends: the main process raised, a worker raised (so the main process never
  got its result and wrote no output), or the edge list was written.\<close>

datatype outcome = Raised error | WorkerFailed error | Done "edge list"

text \<open>Lines 146, 150 and 153 (again 168 and 170): the chunks of object ids handed to the
  workers of a phase, \<^verbatim>\<open>obj_set[i:i + part]\<close> for \<^verbatim>\<open>i\<close> in \<^verbatim>\<open>xrange(0, obj_count, part)\<close>.
  \<^verbatim>\<open>obj_count / threads\<close> is Python 2 integer division: it rounds down and raises
  \<open>ZeroDivisionError\<close> for a zero divisor.\<close>

definition chunks_of :: "nat \<Rightarrow> int \<Rightarrow> error + nat list list" where
  "chunks_of obj_count threads =
     (if threads = 0 then Inl ZeroDivisionError
      else
        (let part = int obj_count div threads in
         case xrange0 obj_count part of
           Inl e \<Rightarrow> Inl e
         | Inr starts \<Rightarrow> Inr (map (\<lambda>i. slice i (i + nat part) [0..<obj_count]) starts)))"

text \<open>Lines 148 to 164: one phase 1 worker per chunk, their dictionaries merged.\<close>

definition phase1 ::
  "kdtree \<Rightarrow> vec list \<Rightarrow> int list \<Rightarrow> int \<Rightarrow> nat list list \<Rightarrow> error + (buff \<times> dic_knn)" where
  "phase1 kdtree data labeled_set k1 chunks =
     collect1 (map (\<lambda>c. labeled_nearest c data labeled_set kdtree k1) chunks)
       (Map.empty, Map.empty)"

text \<open>Lines 166 to 181: one phase 2 worker per chunk, their edges appended.\<close>

definition phase2 ::
  "argsort \<Rightarrow> int \<Rightarrow> buff \<Rightarrow> dic_knn \<Rightarrow> nat list list \<Rightarrow> error + edge list" where
  "phase2 argsort k2 buff dic_knn chunks =
     collect2 (map (\<lambda>c. gbili argsort c k2 buff dic_knn) chunks) []"

text \<open>Lines 139 to 181, from the loaded table on. The first component counts the worker
  processes started before the run ended: none when the main process raised, those of
  phase 1 when one of them failed, those of both phases otherwise.\<close>

definition main ::
  "argsort \<Rightarrow> kdtree \<Rightarrow> vec list \<Rightarrow> int list \<Rightarrow> int \<Rightarrow> int \<Rightarrow> int \<Rightarrow> nat \<times> outcome" where
  "main argsort kdtree data labeled_set k1 k2 threads =
     (case chunks_of (length data) threads of
        Inl e \<Rightarrow> (0, Raised e)
      | Inr chunks \<Rightarrow>
          (case phase1 kdtree data labeled_set k1 chunks of
             Inl e \<Rightarrow> (length chunks, WorkerFailed e)
           | Inr (buff, dic_knn) \<Rightarrow>
               (case phase2 argsort k2 buff dic_knn chunks of
                  Inl e \<Rightarrow> (2 * length chunks, WorkerFailed e)
                | Inr edgelist \<Rightarrow> (2 * length chunks, Done edgelist))))"

text \<open>The same two phases run over all objects in one sequence, with no chunks.\<close>

definition run_all :: "argsort \<Rightarrow> kdtree \<Rightarrow> vec list \<Rightarrow> int list \<Rightarrow> int \<Rightarrow> int \<Rightarrow> outcome" where
  "run_all argsort kdtree data labeled_set k1 k2 =
     (case labeled_nearest [0..<length data] data labeled_set kdtree k1 of
        Inl e \<Rightarrow> WorkerFailed e
      | Inr (buff, dic_knn) \<Rightarrow>
          (case gbili argsort [0..<length data] k2 buff dic_knn of
             Inl e \<Rightarrow> WorkerFailed e
           | Inr edgelist \<Rightarrow> Done edgelist))"

section \<open>A reference index and a reference \<open>argsort\<close>\<close>

text \<open>Modelled from the spec: the nearest-neighbour index (section 4.1), which the program
  takes from scipy. \<open>query(vector, k)\<close> returns the \<open>k\<close> nearest rows in ascending order of
  Euclidean distance, ties in index order, and fails with \<open>InsufficientDataError\<close> when the
  table has fewer than \<open>k\<close> rows. It instantiates the index parameter on concrete tables.\<close>

definition brute_query :: "vec list \<Rightarrow> kdtree" where
  "brute_query data v k =
     (if k < 1 then Inl ValueError
      else if int (length data) < k then Inl InsufficientDataError
      else
        (let order = take (nat k) (sort_key (\<lambda>i. euclidean v (data ! i)) [0..<length data])
         in Inr (map (\<lambda>i. Fin (euclidean v (data ! i))) order, order)))"

text \<open>scipy's index itself never refuses a query for more neighbours than the table has
  rows: it fills the missing places of its answer with the distance \<open>inf\<close> and the index
  \<open>N\<close>, the number of rows. \<open>padding_query\<close> is the reference index with this behaviour; the
  two agree whenever \<open>1 \<le> k \<le> N\<close>.\<close>

definition padding_query :: "vec list \<Rightarrow> kdtree" where
  "padding_query data v k =
     (if k < 1 then Inl ValueError
      else
        (let order = take (nat k) (sort_key (\<lambda>i. euclidean v (data ! i)) [0..<length data]);
             missing = nat k - length data
         in Inr (map (\<lambda>i. Fin (euclidean v (data ! i))) order @ replicate missing PInf,
                 order @ replicate missing (length data))))"

text \<open>A stable \<open>argsort\<close> (insertion sort of the positions by value), one function that
  satisfies \<open>argsort_ok\<close>.\<close>

definition argsort_stable :: argsort where
  "argsort_stable xs = sort_key ((!) xs) [0..<length xs]"

section \<open>The selection of phase 2, stated on the dictionaries\<close>

text \<open>A position \<open>(i, nn)\<close> of \<^verbatim>\<open>enumerate(obj_knn[1])\<close> is a mutual candidate of \<open>obj\<close> when
  \<open>nn\<close> is another object and \<open>obj\<close> is among the neighbours recorded for \<open>nn\<close>.\<close>

definition mutual :: "nat \<Rightarrow> dic_knn \<Rightarrow> nat \<times> nat \<Rightarrow> bool" where
  "mutual obj dic_knn p =
     (snd p \<noteq> obj \<and> (\<exists>nn_knn. dic_knn (snd p) = Some nn_knn \<and> obj \<in> set (snd nn_knn)))"

text \<open>Its score \<open>d1 + d2\<close>: the distance recorded at position \<open>i\<close> of \<open>obj\<close>'s list plus the
  distance of \<open>nn\<close> to its nearest labeled vertex; and its edge.\<close>

definition score :: "fl list \<Rightarrow> buff \<Rightarrow> nat \<times> nat \<Rightarrow> fl" where
  "score dists buff p = fl_add (dists ! fst p) (snd (the (buff (snd p))))"

definition edge_of :: "nat \<Rightarrow> fl list \<Rightarrow> nat \<times> nat \<Rightarrow> edge" where
  "edge_of obj dists p = (obj, snd p, weight (dists ! fst p))"

definition mutual_candidates :: "dic_knn \<Rightarrow> nat \<Rightarrow> (nat \<times> nat) list" where
  "mutual_candidates dic_knn obj =
     (case dic_knn obj of
        None \<Rightarrow> []
      | Some obj_knn \<Rightarrow>
          filter (mutual obj dic_knn) (zip [0..<length (snd obj_knn)] (snd obj_knn)))"

text \<open>The edges selected for \<open>obj\<close>: the mutual candidates at the first \<open>k2\<close> positions of the
  ranking of their scores.\<close>

definition selected :: "argsort \<Rightarrow> int \<Rightarrow> buff \<Rightarrow> dic_knn \<Rightarrow> nat \<Rightarrow> edge list" where
  "selected argsort k2 buff dic_knn obj =
     (case dic_knn obj of
        None \<Rightarrow> []
      | Some obj_knn \<Rightarrow>
          map (\<lambda>j. edge_of obj (fst obj_knn) (mutual_candidates dic_knn obj ! j))
            (slice_to k2 (argsort (map (score (fst obj_knn) buff) (mutual_candidates dic_knn obj)))))"

text \<open>The dictionaries are closed for \<open>objs\<close> when every lookup phase 2 makes for these objects
  succeeds: each has a neighbour list with a distance for every neighbour, and every
  neighbour other than the object itself has its own two entries.\<close>

definition knn_closed :: "buff \<Rightarrow> dic_knn \<Rightarrow> nat list \<Rightarrow> bool" where
  "knn_closed buff dic_knn objs =
     (\<forall>obj \<in> set objs. \<exists>dists indexs. dic_knn obj = Some (dists, indexs)
        \<and> length indexs \<le> length dists
        \<and> (\<forall>nn \<in> set indexs. nn \<noteq> obj \<longrightarrow> dic_knn nn \<noteq> None \<and> buff nn \<noteq> None))"

section \<open>A worked example\<close>

text \<open>Six objects on a line at \<open>0, 1, 2, 3, 10, 11\<close>, the objects \<open>0\<close> and \<open>4\<close> labeled,
  \<open>k1 = 2\<close>; and the two dictionaries phase 1 builds for them.\<close>

definition line6 :: "vec list" where
  "line6 = [[0], [1], [2], [3], [10], [11]]"

definition line6_buff :: buff where
  "line6_buff = [0 \<mapsto> (0, Fin 0), 1 \<mapsto> (0, Fin 1), 2 \<mapsto> (0, Fin 2), 3 \<mapsto> (0, Fin 3),
                 4 \<mapsto> (4, Fin 0), 5 \<mapsto> (4, Fin 1)]"

definition line6_knn :: dic_knn where
  "line6_knn = [0 \<mapsto> ([Fin 1, Fin 2], [1, 2]), 1 \<mapsto> ([Fin 1, Fin 1], [0, 2]),
                2 \<mapsto> ([Fin 1, Fin 1], [1, 3]), 3 \<mapsto> ([Fin 1, Fin 2], [2, 1]),
                4 \<mapsto> ([Fin 1, Fin 7], [5, 3]), 5 \<mapsto> ([Fin 1, Fin 8], [4, 3])]"

text \<open>Three objects at \<open>0, 0, 5\<close>, object \<open>0\<close> labeled, \<open>k1 = 2\<close>: the objects \<open>0\<close> and \<open>1\<close> have
  the same feature vector, so the index answers both queries alike, and the list left for
  object \<open>1\<close> after the first result is dropped starts with \<open>1\<close> itself.\<close>

definition dup3 :: "vec list" where
  "dup3 = [[0], [0], [5]]"

definition dup3_buff :: buff where
  "dup3_buff = [0 \<mapsto> (0, Fin 0), 1 \<mapsto> (0, Fin 0), 2 \<mapsto> (0, Fin 5)]"

definition dup3_knn :: dic_knn where
  "dup3_knn = [0 \<mapsto> ([Fin 0, Fin 5], [1, 2]), 1 \<mapsto> ([Fin 0, Fin 5], [1, 2]),
               2 \<mapsto> ([Fin 5, Fin 5], [0, 1])]"

text \<open>Three objects at \<open>0\<close>, \<open>-1\<close> and \<open>3/2\<close>, object \<open>2\<close> labeled, \<open>k1 = 2\<close>. For object \<open>0\<close> the
  nearer neighbour \<open>1\<close> is far from the labeled vertex and the farther neighbour \<open>2\<close> is the
  labeled vertex itself, so the sum of the two distances ranks \<open>2\<close> before \<open>1\<close>.\<close>

definition tri :: "vec list" where
  "tri = [[0], [- 1], [3 / 2]]"

definition tri_buff :: buff where
  "tri_buff = [0 \<mapsto> (2, Fin (3 / 2)), 1 \<mapsto> (2, Fin (5 / 2)), 2 \<mapsto> (2, Fin 0)]"

definition tri_knn :: dic_knn where
  "tri_knn = [0 \<mapsto> ([Fin 1, Fin (3 / 2)], [1, 2]), 1 \<mapsto> ([Fin 1, Fin (5 / 2)], [0, 2]),
              2 \<mapsto> ([Fin (3 / 2), Fin (5 / 2)], [0, 1])]"

text \<open>Two objects at \<open>0\<close> and \<open>1\<close>: too few for \<open>k1 = 2\<close>.\<close>

definition two :: "vec list" where
  "two = [[0], [1]]"

section \<open>What is assumed of the index\<close>

text \<open>The labeled ids the program is meant for: object ids of the table.\<close>

definition labels_valid :: "vec list \<Rightarrow> int list \<Rightarrow> bool" where
  "labels_valid data labeled_set = (\<forall>l \<in> set labeled_set. 0 \<le> l \<and> l < int (length data))"

text \<open>The index answers a query for \<open>k\<close> of the table's rows, \<open>1 \<le> k \<le> N\<close>, with \<open>k\<close> distinct
  object ids and their Euclidean distances to the query vector, in ascending order of
  distance. Only what the theorems below use is stated; that the rows returned are the
  nearest ones is not needed by any of them.\<close>

definition query_ok :: "vec list \<Rightarrow> kdtree \<Rightarrow> bool" where
  "query_ok data kdtree =
     (\<forall>v k. 1 \<le> k \<and> k \<le> int (length data) \<longrightarrow>
        (\<exists>dists indexs. kdtree v k = Inr (dists, indexs)
           \<and> length dists = nat k \<and> length indexs = nat k
           \<and> sorted dists \<and> distinct indexs
           \<and> (\<forall>i<nat k. indexs ! i < length data
                  \<and> dists ! i = Fin (euclidean v (data ! (indexs ! i))))))"

text \<open>The index pads: it answers every query for \<open>k \<ge> 1\<close> neighbours with \<open>k\<close> places, object
  ids in the places below \<open>N\<close>, and the distance \<open>inf\<close> with the index \<open>N\<close> in the places from
  \<open>N\<close> on.\<close>

definition query_pads :: "vec list \<Rightarrow> kdtree \<Rightarrow> bool" where
  "query_pads data kdtree =
     (\<forall>v k. 1 \<le> k \<longrightarrow>
        (\<exists>dists indexs. kdtree v k = Inr (dists, indexs)
           \<and> length dists = nat k \<and> length indexs = nat k
           \<and> (\<forall>i<nat k. if i < length data then indexs ! i < length data
                          else indexs ! i = length data \<and> dists ! i = PInf)))"

section \<open>Phase 2: the candidate loop and the selection\<close>

lemma fl_less_simps [simp]:
  "Fin x < Fin y \<longleftrightarrow> x < y" "Fin x < PInf" "\<not> PInf < a"
  by (cases a; auto simp: less_fl_def)+

text \<open>When the candidate loop returns, it has appended exactly the mutual candidates, in the
  order of the neighbour list, each with its score.\<close>

lemma candidates_Inr:
  "candidates obj dists buff dic_knn ps (od, oe) = Inr (od', oe') \<Longrightarrow>
     od' = od @ map (score dists buff) (filter (mutual obj dic_knn) ps) \<and>
     oe' = oe @ map (edge_of obj dists) (filter (mutual obj dic_knn) ps) \<and>
     (\<forall>p \<in> set (filter (mutual obj dic_knn) ps). fst p < length dists \<and> buff (snd p) \<noteq> None)"
proof (induction obj dists buff dic_knn ps "(od, oe)" arbitrary: od oe rule: candidates.induct)
  case (1 obj dists buff dic_knn)
  then show ?case by simp
next
  case (2 obj dists buff dic_knn i nn rest obj_dists obj_ew)
  show ?case
  proof (cases "obj = nn")
    case True
    with 2(4) have r: "candidates obj dists buff dic_knn rest (obj_dists, obj_ew) = Inr (od', oe')"
      by simp
    have f: "filter (mutual obj dic_knn) ((i, nn) # rest) = filter (mutual obj dic_knn) rest"
      using True by (simp add: mutual_def)
    show ?thesis unfolding f by (rule 2(1)[OF True r])
  next
    case False
    show ?thesis
    proof (cases "dic_knn nn")
      case None
      with 2(4) False show ?thesis by simp
    next
      case (Some nn_knn)
      show ?thesis
      proof (cases "obj \<in> set (snd nn_knn)")
        case m: True
        with 2(4) False Some have i: "i < length dists" by (simp split: if_splits)
        with 2(4) False Some m obtain labeled d2 where b: "buff nn = Some (labeled, d2)"
          by (cases "buff nn") (auto simp: Let_def)
        from 2(4) False Some m i b
        have "candidates obj dists buff dic_knn rest
                (obj_dists @ [fl_add (dists ! i) d2], obj_ew @ [(obj, nn, weight (dists ! i))])
              = Inr (od', oe')"
          by (simp add: Let_def)
        note IH = 2(2)[OF False Some m i refl b refl this]
        have f: "filter (mutual obj dic_knn) ((i, nn) # rest)
                 = (i, nn) # filter (mutual obj dic_knn) rest"
          using False Some m by (simp add: mutual_def)
        show ?thesis unfolding f using IH i b by (simp add: score_def edge_of_def)
      next
        case m: False
        with 2(4) False Some
        have "candidates obj dists buff dic_knn rest (obj_dists, obj_ew) = Inr (od', oe')" by simp
        note IH = 2(3)[OF False Some m this]
        have f: "filter (mutual obj dic_knn) ((i, nn) # rest) = filter (mutual obj dic_knn) rest"
          using False Some m by (simp add: mutual_def)
        show ?thesis unfolding f by (rule IH)
      qed
    qed
  qed
qed

lemma emit_eq:
  "emit obj_ew idxs ew =
     (if \<forall>i \<in> set idxs. i < length obj_ew then Inr (ew @ map ((!) obj_ew) idxs)
      else Inl IndexError)"
  by (induction idxs arbitrary: ew) auto

lemma gbili_obj_Inr:
  assumes "gbili_obj argsort k2 buff dic_knn obj ew = Inr ew'"
  obtains dists indexs where
    "dic_knn obj = Some (dists, indexs)"
    "\<forall>p \<in> set (mutual_candidates dic_knn obj). fst p < length dists \<and> buff (snd p) \<noteq> None"
    "\<forall>j \<in> set (slice_to k2 (argsort (map (score dists buff) (mutual_candidates dic_knn obj)))).
        j < length (mutual_candidates dic_knn obj)"
    "ew' = ew @ map (\<lambda>j. edge_of obj dists (mutual_candidates dic_knn obj ! j))
                  (slice_to k2 (argsort (map (score dists buff) (mutual_candidates dic_knn obj))))"
proof -
  from assms obtain dists indexs where k: "dic_knn obj = Some (dists, indexs)"
    by (cases "dic_knn obj") (auto simp: gbili_obj_def)
  let ?ps = "zip [0..<length indexs] indexs"
  from assms k obtain od oe where
    c: "candidates obj dists buff dic_knn ?ps ([], []) = Inr (od, oe)"
    and e: "emit oe (slice_to k2 (argsort od)) ew = Inr ew'"
    by (auto simp: gbili_obj_def split: sum.splits)
  have mc: "mutual_candidates dic_knn obj = filter (mutual obj dic_knn) ?ps"
    by (simp add: mutual_candidates_def k)
  from candidates_Inr[OF c] mc
  have od: "od = map (score dists buff) (mutual_candidates dic_knn obj)"
    and oe: "oe = map (edge_of obj dists) (mutual_candidates dic_knn obj)"
    and ok: "\<forall>p \<in> set (mutual_candidates dic_knn obj). fst p < length dists \<and> buff (snd p) \<noteq> None"
    by simp_all
  from e have r: "\<forall>j \<in> set (slice_to k2 (argsort od)). j < length oe"
    and ew': "ew' = ew @ map ((!) oe) (slice_to k2 (argsort od))"
    by (simp_all add: emit_eq split: if_splits)
  from r have r': "\<forall>j \<in> set (slice_to k2 (argsort (map (score dists buff) (mutual_candidates dic_knn obj)))).
        j < length (mutual_candidates dic_knn obj)"
    by (simp add: od oe)
  have "map ((!) oe) (slice_to k2 (argsort od))
      = map (\<lambda>j. edge_of obj dists (mutual_candidates dic_knn obj ! j)) (slice_to k2 (argsort od))"
    using r by (intro map_cong refl) (simp add: oe)
  with ew' have "ew' = ew @ map (\<lambda>j. edge_of obj dists (mutual_candidates dic_knn obj ! j))
                  (slice_to k2 (argsort (map (score dists buff) (mutual_candidates dic_knn obj))))"
    by (simp add: od)
  with k ok r' show thesis by (rule that)
qed

lemma gbili_obj_edge:
  assumes "gbili_obj argsort k2 buff dic_knn obj ew = Inr ew'" and "e \<in> set ew'"
  shows "e \<in> set ew \<or>
         (\<exists>dists indexs p. dic_knn obj = Some (dists, indexs) \<and> p \<in> set (zip [0..<length indexs] indexs)
            \<and> mutual obj dic_knn p \<and> fst p < length dists \<and> e = edge_of obj dists p)"
proof -
  from assms(1) obtain dists indexs where
    k: "dic_knn obj = Some (dists, indexs)" and
    ok: "\<forall>p \<in> set (mutual_candidates dic_knn obj). fst p < length dists \<and> buff (snd p) \<noteq> None" and
    r: "\<forall>j \<in> set (slice_to k2 (argsort (map (score dists buff) (mutual_candidates dic_knn obj)))).
        j < length (mutual_candidates dic_knn obj)" and
    ew': "ew' = ew @ map (\<lambda>j. edge_of obj dists (mutual_candidates dic_knn obj ! j))
                  (slice_to k2 (argsort (map (score dists buff) (mutual_candidates dic_knn obj))))"
    by (rule gbili_obj_Inr)
  show ?thesis
  proof (cases "e \<in> set ew")
    case True then show ?thesis by simp
  next
    case False
    with assms(2) ew' obtain j where
      j: "j \<in> set (slice_to k2 (argsort (map (score dists buff) (mutual_candidates dic_knn obj))))"
      and e: "e = edge_of obj dists (mutual_candidates dic_knn obj ! j)"
      by auto
    define p where "p = mutual_candidates dic_knn obj ! j"
    from r j have m: "p \<in> set (mutual_candidates dic_knn obj)"
      by (simp add: p_def)
    with ok have 3: "fst p < length dists" by blast
    have "mutual_candidates dic_knn obj = filter (mutual obj dic_knn) (zip [0..<length indexs] indexs)"
      by (simp add: mutual_candidates_def k)
    with m have "p \<in> set (zip [0..<length indexs] indexs)" "mutual obj dic_knn p"
      by simp_all
    with k e 3 show ?thesis unfolding p_def by blast
  qed
qed

lemma gbili_loop_edge:
  "gbili_loop argsort k2 buff dic_knn objs ew = Inr ew' \<Longrightarrow> e \<in> set ew' \<Longrightarrow>
     e \<in> set ew \<or>
     (\<exists>obj \<in> set objs. \<exists>dists indexs p. dic_knn obj = Some (dists, indexs) \<and> p \<in> set (zip [0..<length indexs] indexs)
            \<and> mutual obj dic_knn p \<and> fst p < length dists \<and> e = edge_of obj dists p)"
proof (induction objs arbitrary: ew)
  case Nil
  then show ?case by simp
next
  case (Cons obj rest)
  from Cons.prems(1) obtain ew1 where
    o: "gbili_obj argsort k2 buff dic_knn obj ew = Inr ew1" and
    l: "gbili_loop argsort k2 buff dic_knn rest ew1 = Inr ew'"
    by (auto split: sum.splits)
  from Cons.IH[OF l Cons.prems(2)] gbili_obj_edge[OF o, of e]
  show ?case by auto
qed

lemma candidates_total:
  assumes "\<forall>p \<in> set ps. snd p \<noteq> obj \<longrightarrow> dic_knn (snd p) \<noteq> None \<and> buff (snd p) \<noteq> None \<and> fst p < length dists"
  shows "candidates obj dists buff dic_knn ps (od, oe) =
           Inr (od @ map (score dists buff) (filter (mutual obj dic_knn) ps),
                oe @ map (edge_of obj dists) (filter (mutual obj dic_knn) ps))"
  using assms
proof (induction ps arbitrary: od oe)
  case Nil
  then show ?case by simp
next
  case (Cons p rest)
  obtain i nn where p: "p = (i, nn)" by (cases p)
  from Cons.prems have rest: "\<forall>p \<in> set rest. snd p \<noteq> obj \<longrightarrow> dic_knn (snd p) \<noteq> None \<and> buff (snd p) \<noteq> None \<and> fst p < length dists"
    by simp
  note IH = Cons.IH[OF rest]
  show ?case
  proof (cases "obj = nn")
    case True
    then show ?thesis using IH by (simp add: p mutual_def)
  next
    case False
    with Cons.prems p obtain nn_knn labeled d2 where
      k: "dic_knn nn = Some nn_knn" and b: "buff nn = Some (labeled, d2)" and i: "i < length dists"
      by fastforce
    show ?thesis
    proof (cases "obj \<in> set (snd nn_knn)")
      case True
      with False k have m: "mutual obj dic_knn (i, nn)" by (simp add: mutual_def)
      show ?thesis using False k b i True m IH
        by (simp add: p Let_def score_def edge_of_def)
    next
      case nm: False
      with False k have m: "\<not> mutual obj dic_knn (i, nn)" by (simp add: mutual_def)
      show ?thesis using False k nm m IH by (simp add: p)
    qed
  qed
qed

lemma argsort_ok_bound:
  "argsort_ok argsort \<Longrightarrow> j \<in> set (slice_to k2 (argsort xs)) \<Longrightarrow> j < length xs"
proof -
  assume ok: "argsort_ok argsort" and j: "j \<in> set (slice_to k2 (argsort xs))"
  from j have "j \<in> set (argsort xs)"
    by (auto simp: slice_to_def dest: in_set_takeD split: if_splits)
  with ok show ?thesis by (simp add: argsort_ok_def)
qed

lemma gbili_obj_total:
  assumes ok: "argsort_ok argsort" and c: "knn_closed buff dic_knn [obj]"
  shows "gbili_obj argsort k2 buff dic_knn obj ew = Inr (ew @ selected argsort k2 buff dic_knn obj)"
proof -
  from c obtain dists indexs where k: "dic_knn obj = Some (dists, indexs)"
    and len: "length indexs \<le> length dists"
    and nb: "\<forall>nn \<in> set indexs. nn \<noteq> obj \<longrightarrow> dic_knn nn \<noteq> None \<and> buff nn \<noteq> None"
    by (auto simp: knn_closed_def)
  let ?ps = "zip [0..<length indexs] indexs"
  have "\<forall>p \<in> set ?ps. snd p \<noteq> obj \<longrightarrow> dic_knn (snd p) \<noteq> None \<and> buff (snd p) \<noteq> None \<and> fst p < length dists"
  proof
    fix p assume "p \<in> set ?ps"
    then have "fst p < length indexs" "snd p \<in> set indexs"
      by (auto simp: in_set_zip intro: nth_mem dest: sym)
    with len nb show "snd p \<noteq> obj \<longrightarrow> dic_knn (snd p) \<noteq> None \<and> buff (snd p) \<noteq> None \<and> fst p < length dists"
      by auto
  qed
  from candidates_total[OF this, of "[]" "[]"]
  have cs: "candidates obj dists buff dic_knn ?ps ([], []) =
           Inr (map (score dists buff) (mutual_candidates dic_knn obj),
                map (edge_of obj dists) (mutual_candidates dic_knn obj))"
    by (simp add: mutual_candidates_def k)
  let ?sel = "slice_to k2 (argsort (map (score dists buff) (mutual_candidates dic_knn obj)))"
  have b: "\<forall>j \<in> set ?sel. j < length (mutual_candidates dic_knn obj)"
    using argsort_ok_bound[OF ok] by fastforce
  then have "map ((!) (map (edge_of obj dists) (mutual_candidates dic_knn obj))) ?sel
      = map (\<lambda>j. edge_of obj dists (mutual_candidates dic_knn obj ! j)) ?sel"
    by (intro map_cong refl) simp
  with b show ?thesis
    by (simp add: gbili_obj_def k cs emit_eq selected_def)
qed

lemma knn_closed_Cons:
  "knn_closed buff dic_knn (obj # rest) \<longleftrightarrow> knn_closed buff dic_knn [obj] \<and> knn_closed buff dic_knn rest"
  by (simp add: knn_closed_def)

lemma gbili_loop_total:
  "argsort_ok argsort \<Longrightarrow> knn_closed buff dic_knn objs \<Longrightarrow>
     gbili_loop argsort k2 buff dic_knn objs ew
       = Inr (ew @ concat (map (selected argsort k2 buff dic_knn) objs))"
proof (induction objs arbitrary: ew)
  case Nil
  then show ?case by simp
next
  case (Cons obj rest)
  from Cons.prems(2) have 1: "knn_closed buff dic_knn [obj]" and 2: "knn_closed buff dic_knn rest"
    by (simp_all add: knn_closed_Cons[of _ _ obj rest])
  show ?case
    by (simp add: gbili_obj_total[OF Cons.prems(1) 1] Cons.IH[OF Cons.prems(1) 2])
qed

lemma selected_source: "e \<in> set (selected argsort k2 buff dic_knn obj) \<Longrightarrow> fst e = obj"
  by (auto simp: selected_def edge_of_def split: option.splits)

lemma filter_source_concat:
  assumes "distinct objs" and "\<And>x e. e \<in> set (f x) \<Longrightarrow> fst e = x"
  shows "filter (\<lambda>e. fst e = (y::nat)) (concat (map f objs)) = (if y \<in> set objs then f y else [])"
  using assms(1)
proof (induction objs)
  case Nil
  then show ?case by simp
next
  case (Cons x xs)
  have a: "filter (\<lambda>e. fst e = y) (f x) = (if x = y then f x else [])"
    using assms(2)[of _ x] by (auto simp: filter_empty_conv filter_id_conv)
  from Cons show ?case by (auto simp: a)
qed

lemma argsort_ok_length: "argsort_ok argsort \<Longrightarrow> length (argsort xs) = length xs"
proof -
  assume ok: "argsort_ok argsort"
  then have "distinct (argsort xs)" "set (argsort xs) = {0..<length xs}"
    by (simp_all add: argsort_ok_def)
  then show ?thesis by (metis card_atLeastLessThan diff_zero distinct_card)
qed

section \<open>Workers on chunks against one pass over all objects\<close>

lemma loop1_append:
  "labeled_nearest_loop kdtree data ls k1 (xs @ ys) st =
     (case labeled_nearest_loop kdtree data ls k1 xs st of
        Inl e \<Rightarrow> Inl e
      | Inr st' \<Rightarrow> labeled_nearest_loop kdtree data ls k1 ys st')"
proof (induction xs arbitrary: st)
  case Nil
  then show ?case by simp
next
  case (Cons x xs)
  obtain b d where st: "st = (b, d)" by (cases st)
  show ?case by (simp add: st Cons.IH split: sum.splits prod.splits)
qed

lemma loop1_acc:
  "labeled_nearest_loop kdtree data ls k1 xs (b, d) =
     (case labeled_nearest_loop kdtree data ls k1 xs (Map.empty, Map.empty) of
        Inl e \<Rightarrow> Inl e
      | Inr (b', d') \<Rightarrow> Inr (b ++ b', d ++ d'))"
proof (induction xs arbitrary: b d)
  case Nil
  then show ?case by simp
next
  case (Cons x xs)
  show ?case
  proof (cases "nearest_obj kdtree data ls k1 x")
    case (Inl e)
    then show ?thesis by simp
  next
    case (Inr r)
    obtain n k where r: "r = (n, k)" by (cases r)
    have 1: "labeled_nearest_loop kdtree data ls k1 (x # xs) (b, d)
             = labeled_nearest_loop kdtree data ls k1 xs (b(x \<mapsto> n), d(x \<mapsto> k))"
      by (simp add: Inr r)
    have 2: "labeled_nearest_loop kdtree data ls k1 (x # xs) (Map.empty, Map.empty)
             = labeled_nearest_loop kdtree data ls k1 xs ([x \<mapsto> n], [x \<mapsto> k])"
      by (simp add: Inr r)
    have 3: "b ++ ([x \<mapsto> n] ++ b') = b(x \<mapsto> n) ++ b'" for b' and b :: "nat \<rightharpoonup> 'v" and n
      by (simp add: map_add_assoc[symmetric])
    show ?thesis
      unfolding 1 2
      by (subst Cons.IH[of "b(x \<mapsto> n)"], subst Cons.IH[of "[x \<mapsto> n]"])
         (simp add: 3 split: sum.splits prod.splits)
  qed
qed

lemma collect1_concat:
  "collect1 (map (\<lambda>c. labeled_nearest c data ls kdtree k1) chunks) st
     = labeled_nearest_loop kdtree data ls k1 (concat chunks) st"
proof (induction chunks arbitrary: st)
  case Nil
  then show ?case by simp
next
  case (Cons c chunks)
  obtain b d where st: "st = (b, d)" by (cases st)
  show ?case
    unfolding st
    by (simp add: loop1_append labeled_nearest_def Cons.IH[unfolded labeled_nearest_def] loop1_acc[of _ _ _ _ c b d]
          split: sum.splits prod.splits)
qed

lemma loop2_append:
  "gbili_loop argsort k2 buff dic_knn (xs @ ys) ew =
     (case gbili_loop argsort k2 buff dic_knn xs ew of
        Inl e \<Rightarrow> Inl e
      | Inr ew' \<Rightarrow> gbili_loop argsort k2 buff dic_knn ys ew')"
  by (induction xs arbitrary: ew) (simp_all split: sum.splits)

lemma gbili_obj_acc:
  "gbili_obj argsort k2 buff dic_knn obj ew =
     (case gbili_obj argsort k2 buff dic_knn obj [] of
        Inl e \<Rightarrow> Inl e
      | Inr es \<Rightarrow> Inr (ew @ es))"
  by (simp add: gbili_obj_def emit_eq split: option.splits sum.splits prod.splits)

lemma loop2_acc:
  "gbili_loop argsort k2 buff dic_knn xs ew =
     (case gbili_loop argsort k2 buff dic_knn xs [] of
        Inl e \<Rightarrow> Inl e
      | Inr es \<Rightarrow> Inr (ew @ es))"
proof (induction xs arbitrary: ew)
  case Nil
  then show ?case by simp
next
  case (Cons x xs)
  show ?case
  proof (cases "gbili_obj argsort k2 buff dic_knn x []")
    case (Inl e)
    then show ?thesis by (simp add: gbili_obj_acc[of _ _ _ _ x ew])
  next
    case (Inr es)
    have 1: "gbili_loop argsort k2 buff dic_knn (x # xs) ew
             = gbili_loop argsort k2 buff dic_knn xs (ew @ es)"
      by (simp add: gbili_obj_acc[of _ _ _ _ x ew] Inr)
    have 2: "gbili_loop argsort k2 buff dic_knn (x # xs) []
             = gbili_loop argsort k2 buff dic_knn xs es"
      by (simp add: Inr)
    show ?thesis
      unfolding 1 2
      by (subst Cons.IH[of "ew @ es"], subst Cons.IH[of es]) (simp split: sum.splits)
  qed
qed

lemma collect2_concat:
  "collect2 (map (\<lambda>c. gbili argsort c k2 buff dic_knn) chunks) acc
     = gbili_loop argsort k2 buff dic_knn (concat chunks) acc"
proof (induction chunks arbitrary: acc)
  case Nil
  then show ?case by simp
next
  case (Cons c chunks)
  show ?case
    by (simp add: loop2_append gbili_def Cons.IH[unfolded gbili_def] loop2_acc[of _ _ _ _ c acc] split: sum.splits)
qed

lemma slice_upt: "slice i j [0..<n] = [i..<min j n]"
proof (cases "j \<le> n")
  case True
  then have "take j [0..<n] = [0..<j]" by (simp add: take_upt)
  with True show ?thesis by (simp add: slice_def min_def)
next
  case False
  then show ?thesis by (simp add: slice_def min_def)
qed

lemma concat_chunks_upt:
  "concat (map (\<lambda>i. slice i (i + s) [0..<n]) (map (\<lambda>j. j * s) [0..<m])) = [0..<min (m * s) n]"
proof (induction m)
  case 0
  then show ?case by simp
next
  case (Suc m)
  have "[0..<min (m * s) n] @ [m * s..<min (m * s + s) n] = [0..<min (s + m * s) n]"
  proof (cases "m * s \<le> n")
    case True
    then have "[0..<min (s + m * s) n] = [0..<m * s] @ [m * s..<min (s + m * s) n]"
      using upt_add_eq_append[of 0 "m * s" "min (s + m * s) n - m * s"] by (simp add: min_def)
    with True show ?thesis by (simp add: min_def add.commute)
  next
    case False
    then show ?thesis by (simp add: min_def)
  qed
  with Suc show ?case by (simp add: slice_upt)
qed

lemma ceil_div_mult_ge: "0 < s \<Longrightarrow> n \<le> ((n + s - 1) div s) * (s::nat)"
proof -
  assume s: "0 < s"
  have "n + s - 1 = ((n + s - 1) div s) * s + (n + s - 1) mod s" by simp
  moreover have "(n + s - 1) mod s \<le> s - 1" using s
    by (metis Suc_pred' less_Suc_eq_le mod_less_divisor)
  ultimately show ?thesis using s by linarith
qed

lemma chunks_of_valid:
  assumes "1 \<le> threads" and "threads \<le> int n"
  obtains chunks where "chunks_of n threads = Inr chunks" "concat chunks = [0..<n]"
    "length chunks = (n + nat (int n div threads) - 1) div nat (int n div threads)"
    "0 < int n div threads"
proof -
  let ?part = "int n div threads"
  have p: "0 < ?part" using assms by (simp add: pos_imp_zdiv_pos_iff)
  let ?s = "nat ?part"
  let ?m = "(n + ?s - 1) div ?s"
  let ?chunks = "map (\<lambda>i. slice i (i + ?s) [0..<n]) (map (\<lambda>j. j * ?s) [0..<?m])"
  have 1: "chunks_of n threads = Inr ?chunks"
    using assms p by (simp add: chunks_of_def xrange0_def Let_def)
  have "concat ?chunks = [0..<min (?m * ?s) n]" by (rule concat_chunks_upt)
  moreover have "n \<le> ?m * ?s" using p by (intro ceil_div_mult_ge) simp
  ultimately have 2: "concat ?chunks = [0..<n]" by (simp add: min_def)
  have 3: "length ?chunks = ?m" by simp
  from 1 2 3 p show thesis by (rule that)
qed

lemma main_valid:
  assumes "1 \<le> threads" and "threads \<le> int (length data)"
  shows "snd (main argsort kdtree data ls k1 k2 threads) = run_all argsort kdtree data ls k1 k2"
proof -
  from assms obtain chunks where c: "chunks_of (length data) threads = Inr chunks"
    and cc: "concat chunks = [0..<length data]"
    by (rule chunks_of_valid)
  have 1: "phase1 kdtree data ls k1 chunks = labeled_nearest [0..<length data] data ls kdtree k1"
    by (simp only: phase1_def collect1_concat cc) (simp only: labeled_nearest_def)
  have 2: "phase2 argsort k2 buff dic_knn chunks = gbili argsort [0..<length data] k2 buff dic_knn"
    for buff dic_knn
    by (simp only: phase2_def collect2_concat cc) (simp only: gbili_def)
  show ?thesis
    by (simp add: main_def c 1 2 run_all_def split: sum.splits prod.splits)
qed

section \<open>Phase 1: the labeled scan and the dictionaries\<close>

lemma row_valid: "0 \<le> l \<Longrightarrow> l < int (length data) \<Longrightarrow> row data l = Inr (data ! nat l)"
  by (simp add: row_def)

lemma scan_labeled_valid:
  assumes "\<forall>l \<in> set ls. 0 \<le> l \<and> l < int (length data)"
  shows "\<exists>ml' md'. scan_labeled data v ls (ml, md) = Inr (ml', md') \<and>
     ((ml', md') = (ml, md) \<and> (\<forall>l \<in> set ls. \<not> Fin (euclidean v (data ! nat l)) < md)
      \<or> (\<exists>j<length ls. ml' = ls ! j \<and> md' = Fin (euclidean v (data ! nat (ls ! j))) \<and> md' < md
            \<and> (\<forall>i<length ls. md' \<le> Fin (euclidean v (data ! nat (ls ! i))))
            \<and> (\<forall>i<j. md' < Fin (euclidean v (data ! nat (ls ! i))))))"
  using assms
proof (induction ls arbitrary: ml md)
  case Nil
  then show ?case by simp
next
  case (Cons l rest)
  define dm where "dm = (\<lambda>l. Fin (euclidean v (data ! nat l)))"
  from Cons.prems have r: "row data l = Inr (data ! nat l)"
    and rest: "\<forall>l \<in> set rest. 0 \<le> l \<and> l < int (length data)"
    by (simp_all add: row_valid)
  show ?case
  proof (cases "dm l < md")
    case True
    then have s: "scan_labeled data v (l # rest) (ml, md) = scan_labeled data v rest (l, dm l)"
      by (simp add: r dm_def)
    from Cons.IH[OF rest, of l "dm l"] obtain ml' md' where
      res: "scan_labeled data v rest (l, dm l) = Inr (ml', md')" and
      alt: "(ml', md') = (l, dm l) \<and> (\<forall>x \<in> set rest. \<not> dm x < dm l)
            \<or> (\<exists>j<length rest. ml' = rest ! j \<and> md' = dm (rest ! j) \<and> md' < dm l
                 \<and> (\<forall>i<length rest. md' \<le> dm (rest ! i)) \<and> (\<forall>i<j. md' < dm (rest ! i)))"
      unfolding dm_def by blast
    from alt have "\<exists>j<length (l # rest). ml' = (l # rest) ! j \<and> md' = dm ((l # rest) ! j) \<and> md' < md
            \<and> (\<forall>i<length (l # rest). md' \<le> dm ((l # rest) ! i))
            \<and> (\<forall>i<j. md' < dm ((l # rest) ! i))"
    proof
      assume a: "(ml', md') = (l, dm l) \<and> (\<forall>x \<in> set rest. \<not> dm x < dm l)"
      have "\<forall>i<length (l # rest). md' \<le> dm ((l # rest) ! i)"
      proof (intro allI impI)
        fix i assume "i < length (l # rest)"
        then show "md' \<le> dm ((l # rest) ! i)"
          using a by (cases i) (auto simp: not_less)
      qed
      with a True show ?thesis by (intro exI[of _ 0]) simp
    next
      assume "\<exists>j<length rest. ml' = rest ! j \<and> md' = dm (rest ! j) \<and> md' < dm l
                 \<and> (\<forall>i<length rest. md' \<le> dm (rest ! i)) \<and> (\<forall>i<j. md' < dm (rest ! i))"
      then obtain j where j: "j < length rest" "ml' = rest ! j" "md' = dm (rest ! j)" "md' < dm l"
        "\<forall>i<length rest. md' \<le> dm (rest ! i)" "\<forall>i<j. md' < dm (rest ! i)"
        by blast
      have 1: "\<forall>i<length (l # rest). md' \<le> dm ((l # rest) ! i)"
      proof (intro allI impI)
        fix i assume "i < length (l # rest)"
        then show "md' \<le> dm ((l # rest) ! i)"
          using j(4,5) by (cases i) auto
      qed
      have 2: "\<forall>i<Suc j. md' < dm ((l # rest) ! i)"
      proof (intro allI impI)
        fix i assume "i < Suc j"
        then show "md' < dm ((l # rest) ! i)"
          using j(4,6) by (cases i) auto
      qed
      from j(4) True have "md' < md" by simp
      with j 1 2 show ?thesis by (intro exI[of _ "Suc j"]) simp
    qed
    with s res show ?thesis unfolding dm_def by auto
  next
    case False
    then have s: "scan_labeled data v (l # rest) (ml, md) = scan_labeled data v rest (ml, md)"
      by (simp add: r dm_def)
    from Cons.IH[OF rest, of ml md] obtain ml' md' where
      res: "scan_labeled data v rest (ml, md) = Inr (ml', md')" and
      alt: "(ml', md') = (ml, md) \<and> (\<forall>x \<in> set rest. \<not> dm x < md)
            \<or> (\<exists>j<length rest. ml' = rest ! j \<and> md' = dm (rest ! j) \<and> md' < md
                 \<and> (\<forall>i<length rest. md' \<le> dm (rest ! i)) \<and> (\<forall>i<j. md' < dm (rest ! i)))"
      unfolding dm_def by blast
    from alt have "(ml', md') = (ml, md) \<and> (\<forall>x \<in> set (l # rest). \<not> dm x < md)
            \<or> (\<exists>j<length (l # rest). ml' = (l # rest) ! j \<and> md' = dm ((l # rest) ! j) \<and> md' < md
            \<and> (\<forall>i<length (l # rest). md' \<le> dm ((l # rest) ! i))
            \<and> (\<forall>i<j. md' < dm ((l # rest) ! i)))"
    proof
      assume "(ml', md') = (ml, md) \<and> (\<forall>x \<in> set rest. \<not> dm x < md)"
      with False show ?thesis by simp
    next
      assume "\<exists>j<length rest. ml' = rest ! j \<and> md' = dm (rest ! j) \<and> md' < md
                 \<and> (\<forall>i<length rest. md' \<le> dm (rest ! i)) \<and> (\<forall>i<j. md' < dm (rest ! i))"
      then obtain j where j: "j < length rest" "ml' = rest ! j" "md' = dm (rest ! j)" "md' < md"
        "\<forall>i<length rest. md' \<le> dm (rest ! i)" "\<forall>i<j. md' < dm (rest ! i)"
        by blast
      from j(4) False have lt: "md' < dm l" by simp
      have 1: "\<forall>i<length (l # rest). md' \<le> dm ((l # rest) ! i)"
      proof (intro allI impI)
        fix i assume "i < length (l # rest)"
        then show "md' \<le> dm ((l # rest) ! i)"
          using lt j(5) by (cases i) auto
      qed
      have 2: "\<forall>i<Suc j. md' < dm ((l # rest) ! i)"
      proof (intro allI impI)
        fix i assume "i < Suc j"
        then show "md' < dm ((l # rest) ! i)"
          using lt j(6) by (cases i) auto
      qed
      from j 1 2 have "\<exists>j<length (l # rest). ml' = (l # rest) ! j \<and> md' = dm ((l # rest) ! j) \<and> md' < md
            \<and> (\<forall>i<length (l # rest). md' \<le> dm ((l # rest) ! i))
            \<and> (\<forall>i<j. md' < dm ((l # rest) ! i))"
        by (intro exI[of _ "Suc j"]) simp
      then show ?thesis ..
    qed
    with s res show ?thesis unfolding dm_def by auto
  qed
qed

lemma euclidean_1d [simp]: "euclidean [x] [y] = \<bar>x - y\<bar>"
  by (simp add: euclidean_def)

lemma euclidean_self: "euclidean v v = 0"
proof -
  have "(\<Sum>(a, b)\<leftarrow>zip v v. (a - b)\<^sup>2) = (0::real)"
    by (induction v) simp_all
  then show ?thesis by (simp add: euclidean_def)
qed

lemma euclidean_nonneg: "0 \<le> euclidean u v"
proof -
  have "0 \<le> (\<Sum>(a, b)\<leftarrow>zip u v. (a - b)\<^sup>2)"
    by (intro sum_list_nonneg) auto
  then show ?thesis by (simp add: euclidean_def)
qed

lemma loop1_notin:
  "labeled_nearest_loop kdtree data ls k1 xs (b, d) = Inr (b', d') \<Longrightarrow> x \<notin> set xs \<Longrightarrow>
     b' x = b x \<and> d' x = d x"
proof (induction xs arbitrary: b d)
  case Nil
  then show ?case by simp
next
  case (Cons y ys)
  from Cons.prems(1) obtain n k where
    r: "nearest_obj kdtree data ls k1 y = Inr (n, k)" and
    l: "labeled_nearest_loop kdtree data ls k1 ys (b(y \<mapsto> n), d(y \<mapsto> k)) = Inr (b', d')"
    by (auto split: sum.splits)
  from Cons.IH[OF l] Cons.prems(2) show ?case by simp
qed

lemma loop1_in:
  "labeled_nearest_loop kdtree data ls k1 xs (b, d) = Inr (b', d') \<Longrightarrow> x \<in> set xs \<Longrightarrow>
     \<exists>n k. nearest_obj kdtree data ls k1 x = Inr (n, k) \<and> b' x = Some n \<and> d' x = Some k"
proof (induction xs arbitrary: b d)
  case Nil
  then show ?case by simp
next
  case (Cons y ys)
  from Cons.prems(1) obtain n k where
    r: "nearest_obj kdtree data ls k1 y = Inr (n, k)" and
    l: "labeled_nearest_loop kdtree data ls k1 ys (b(y \<mapsto> n), d(y \<mapsto> k)) = Inr (b', d')"
    by (auto split: sum.splits)
  show ?case
  proof (cases "x \<in> set ys")
    case True
    from Cons.IH[OF l True] show ?thesis .
  next
    case False
    with Cons.prems(2) have xy: "x = y" by simp
    from loop1_notin[OF l False] r show ?thesis by (simp add: xy)
  qed
qed

lemma loop1_dom:
  "labeled_nearest_loop kdtree data ls k1 xs (b, d) = Inr (b', d') \<Longrightarrow>
     dom b' = dom b \<union> set xs \<and> dom d' = dom d \<union> set xs"
proof (induction xs arbitrary: b d)
  case Nil
  then show ?case by simp
next
  case (Cons y ys)
  from Cons.prems(1) obtain n k where
    l: "labeled_nearest_loop kdtree data ls k1 ys (b(y \<mapsto> n), d(y \<mapsto> k)) = Inr (b', d')"
    by (auto split: sum.splits)
  from Cons.IH[OF l] show ?case by auto
qed

lemma loop1_total:
  "\<forall>x \<in> set xs. \<exists>r. nearest_obj kdtree data ls k1 x = Inr r \<Longrightarrow>
     \<exists>st'. labeled_nearest_loop kdtree data ls k1 xs st = Inr st'"
proof (induction xs arbitrary: st)
  case Nil
  then show ?case by simp
next
  case (Cons y ys)
  obtain b d where st: "st = (b, d)" by (cases st)
  from Cons.prems obtain n k where r: "nearest_obj kdtree data ls k1 y = Inr (n, k)"
    by fastforce
  from Cons.prems have "\<forall>x \<in> set ys. \<exists>r. nearest_obj kdtree data ls k1 x = Inr r" by simp
  from Cons.IH[OF this] show ?case by (simp add: st r)
qed

text \<open>The body for one object, on valid labels: the scan returns, and what the query
  returns, less its first result, is the neighbour list.\<close>

lemma nearest_obj_valid:
  assumes "obj < length data" and "labels_valid data ls"
    and "kdtree (data ! obj) (k1 + 1) = Inr (dists, indexs)"
  shows "\<exists>nearest. scan_labeled data (data ! obj) ls (- 1, PInf) = Inr nearest
           \<and> nearest_obj kdtree data ls k1 obj = Inr (nearest, (tl dists, tl indexs))"
proof -
  from assms(2) have "\<forall>l \<in> set ls. 0 \<le> l \<and> l < int (length data)"
    by (simp add: labels_valid_def)
  from scan_labeled_valid[OF this, of "data ! obj" "- 1" PInf]
  obtain nearest where "scan_labeled data (data ! obj) ls (- 1, PInf) = Inr nearest"
    by auto
  with assms(1,3) show ?thesis
    by (simp add: nearest_obj_def row_def)
qed

lemma nearest_obj_Inr:
  assumes "nearest_obj kdtree data ls k1 obj = Inr (nearest, nn)" and "obj < length data"
  shows "scan_labeled data (data ! obj) ls (- 1, PInf) = Inr nearest
         \<and> (\<exists>dists indexs. kdtree (data ! obj) (k1 + 1) = Inr (dists, indexs)
               \<and> nn = (tl dists, tl indexs))"
  using assms by (auto simp: nearest_obj_def row_def split: sum.splits)

lemma brute_query_ok: "query_ok data (brute_query data)"
  unfolding query_ok_def
proof (intro allI impI)
  fix v :: vec and k :: int
  assume k: "1 \<le> k \<and> k \<le> int (length data)"
  define f where "f = (\<lambda>i. euclidean v (data ! i))"
  define order where "order = take (nat k) (sort_key f [0..<length data])"
  have q: "brute_query data v k = Inr (map (\<lambda>i. Fin (f i)) order, order)"
    using k by (simp add: brute_query_def order_def f_def Let_def)
  from k have "nat k \<le> length data" by linarith
  then have len: "length order = nat k" by (simp add: order_def)
  have "sorted (map f (sort_key f [0..<length data]))" by (rule sorted_sort_key)
  then have "sorted (take (nat k) (map f (sort_key f [0..<length data])))"
    by (rule sorted_wrt_take)
  then have "sorted (map f order)" by (simp add: order_def take_map)
  then have srt: "sorted (map (\<lambda>i. Fin (f i)) order)"
    by (simp add: sorted_map)
  have dist: "distinct order" by (simp add: order_def)
  have sub: "set order \<subseteq> {0..<length data}"
    using set_take_subset[of "nat k" "sort_key f [0..<length data]"] by (simp add: order_def)
  have nth: "\<forall>i<nat k. order ! i < length data
                \<and> map (\<lambda>i. Fin (f i)) order ! i = Fin (euclidean v (data ! (order ! i)))"
  proof (intro allI impI)
    fix i assume "i < nat k"
    with len have i: "i < length order" by simp
    then have "order ! i \<in> set order" by simp
    with sub have "order ! i < length data" by auto
    with i show "order ! i < length data
                \<and> map (\<lambda>i. Fin (f i)) order ! i = Fin (euclidean v (data ! (order ! i)))"
      by (simp add: f_def)
  qed
  show "\<exists>dists indexs. brute_query data v k = Inr (dists, indexs)
           \<and> length dists = nat k \<and> length indexs = nat k
           \<and> sorted dists \<and> distinct indexs
           \<and> (\<forall>i<nat k. indexs ! i < length data
                  \<and> dists ! i = Fin (euclidean v (data ! (indexs ! i))))"
    using q len srt dist nth by simp
qed

text \<open>With an index that answers and valid labels, a phase 1 worker returns.\<close>

lemma labeled_nearest_returns:
  assumes "query_ok data kdtree" and "1 \<le> k1" and "k1 + 1 \<le> int (length data)"
    and "labels_valid data ls" and "set xs \<subseteq> {0..<length data}"
  shows "\<exists>buff dic_knn. labeled_nearest xs data ls kdtree k1 = Inr (buff, dic_knn)"
proof -
  have q: "\<exists>dists indexs. kdtree v (k1 + 1) = Inr (dists, indexs)" for v
    using assms(1,2,3) unfolding query_ok_def by (meson add_increasing2 zero_le_one order.trans)
  have "\<forall>x \<in> set xs. \<exists>r. nearest_obj kdtree data ls k1 x = Inr r"
  proof
    fix x assume "x \<in> set xs"
    with assms(5) have x: "x < length data" by auto
    from q[of "data ! x"] obtain dists indexs where "kdtree (data ! x) (k1 + 1) = Inr (dists, indexs)"
      by blast
    from nearest_obj_valid[of x data ls kdtree k1 dists indexs, OF x assms(4) this]
    show "\<exists>r. nearest_obj kdtree data ls k1 x = Inr r" by blast
  qed
  from loop1_total[OF this, of "(Map.empty, Map.empty)"]
  show ?thesis by (auto simp: labeled_nearest_def)
qed

lemma phase1_concat:
  "concat chunks = xs \<Longrightarrow>
     phase1 kdtree data ls k1 chunks = labeled_nearest xs data ls kdtree k1"
  by (simp only: phase1_def collect1_concat) (simp only: labeled_nearest_def)

lemma phase2_concat:
  "concat chunks = xs \<Longrightarrow>
     phase2 argsort k2 buff dic_knn chunks = gbili argsort xs k2 buff dic_knn"
  by (simp only: phase2_def collect2_concat) (simp only: gbili_def)

text \<open>The dictionaries phase 1 builds over all objects are closed for phase 2 when the index
  answers with object ids: every lookup of phase 2 then succeeds.\<close>

lemma phase1_output_closed:
  assumes "query_ok data kdtree" and "1 \<le> k1" and "k1 + 1 \<le> int (length data)"
    and "labeled_nearest [0..<length data] data ls kdtree k1 = Inr (buff, dic_knn)"
  shows "knn_closed buff dic_knn [0..<length data]"
  unfolding knn_closed_def
proof
  fix obj assume "obj \<in> set [0..<length data]"
  then have o: "obj < length data" and m: "obj \<in> set [0..<length data]" by simp_all
  from loop1_dom[OF assms(4)[unfolded labeled_nearest_def]]
  have d: "dom buff = {0..<length data}" "dom dic_knn = {0..<length data}" by simp_all
  from loop1_in[OF assms(4)[unfolded labeled_nearest_def] m]
  obtain n nn where r: "nearest_obj kdtree data ls k1 obj = Inr (n, nn)"
    and dk: "dic_knn obj = Some nn"
    by blast
  from nearest_obj_Inr[OF r o] obtain dists indexs where
    k: "kdtree (data ! obj) (k1 + 1) = Inr (dists, indexs)" and nn: "nn = (tl dists, tl indexs)"
    by blast
  have "1 \<le> k1 + 1 \<and> k1 + 1 \<le> int (length data)" using assms(2,3) by simp
  with assms(1) k have ld: "length dists = nat (k1 + 1)" and li: "length indexs = nat (k1 + 1)"
    and b: "\<forall>i<nat (k1 + 1). indexs ! i < length data"
    unfolding query_ok_def by (metis Inr_inject prod.inject)+
  have "\<forall>x \<in> set (tl indexs). x \<noteq> obj \<longrightarrow> dic_knn x \<noteq> None \<and> buff x \<noteq> None"
  proof (intro ballI impI)
    fix x assume "x \<in> set (tl indexs)"
    then have "x \<in> set indexs" by (cases indexs) simp_all
    then obtain i where "i < length indexs" "indexs ! i = x" by (auto simp: in_set_conv_nth)
    with b li have "x < length data" by auto
    with d have "x \<in> dom dic_knn" "x \<in> dom buff" by simp_all
    then show "dic_knn x \<noteq> None \<and> buff x \<noteq> None" by blast
  qed
  with dk nn ld li
  show "\<exists>dists indexs. dic_knn obj = Some (dists, indexs) \<and> length indexs \<le> length dists
          \<and> (\<forall>nn \<in> set indexs. nn \<noteq> obj \<longrightarrow> dic_knn nn \<noteq> None \<and> buff nn \<noteq> None)"
    by simp
qed

text \<open>Hence, on valid input, the whole run returns an edge list.\<close>

lemma main_returns:
  assumes "query_ok data kdtree" and "1 \<le> k1" and "k1 + 1 \<le> int (length data)"
    and "labels_valid data ls" and "argsort_ok argsort"
    and "1 \<le> threads" and "threads \<le> int (length data)"
  shows "\<exists>edgelist. snd (main argsort kdtree data ls k1 k2 threads) = Done edgelist"
proof -
  from labeled_nearest_returns[OF assms(1,2,3,4), of "[0..<length data]"]
  obtain buff dic_knn where
    r: "labeled_nearest [0..<length data] data ls kdtree k1 = Inr (buff, dic_knn)"
    by auto
  from phase1_output_closed[OF assms(1,2,3) r]
  have "knn_closed buff dic_knn [0..<length data]" .
  from gbili_loop_total[OF assms(5) this, of k2 "[]"]
  have "\<exists>ew. gbili argsort [0..<length data] k2 buff dic_knn = Inr ew"
    by (simp add: gbili_def)
  with r show ?thesis
    by (auto simp: main_valid[OF assms(6,7)] run_all_def)
qed

text \<open>With an index that meets \<open>query_ok\<close>, \<open>1 \<le> k1\<close> and \<open>k1 + 1 \<le> N\<close>, the neighbour list a
  worker writes for an object is the answer to the query for \<open>k1 + 1\<close> neighbours less its
  first result: it has exactly \<open>k1\<close> entries in ascending order of distance, and the object
  is absent from it when the first result is the object.\<close>

lemma knn_list_shape:
  assumes "query_ok data kdtree" and "1 \<le> k1" and "k1 + 1 \<le> int (length data)"
    and "labels_valid data ls" and "set obj_subset \<subseteq> {0..<length data}"
    and "obj \<in> set obj_subset"
  shows "\<exists>buff dic_knn dists indexs.
           labeled_nearest obj_subset data ls kdtree k1 = Inr (buff, dic_knn)
           \<and> kdtree (data ! obj) (k1 + 1) = Inr (dists, indexs)
           \<and> dic_knn obj = Some (tl dists, tl indexs)
           \<and> length (tl indexs) = nat k1 \<and> length (tl dists) = nat k1
           \<and> nat k1 = min (nat k1) (length data - 1)
           \<and> sorted (tl dists)
           \<and> (hd indexs = obj \<longrightarrow> obj \<notin> set (tl indexs))
           \<and> (obj \<in> set indexs \<and> hd indexs \<noteq> obj \<longrightarrow> obj \<in> set (tl indexs))"
proof -
  have q: "\<exists>dists indexs. kdtree v (k1 + 1) = Inr (dists, indexs)
             \<and> length dists = nat (k1 + 1) \<and> length indexs = nat (k1 + 1)
             \<and> sorted dists \<and> distinct indexs" for v
    using assms(1,2,3) unfolding query_ok_def by (meson add_increasing2 zero_le_one order.trans)
  have "\<forall>x \<in> set obj_subset. \<exists>r. nearest_obj kdtree data ls k1 x = Inr r"
  proof
    fix x assume "x \<in> set obj_subset"
    with assms(5) have x: "x < length data" by auto
    from q[of "data ! x"] obtain dists indexs where "kdtree (data ! x) (k1 + 1) = Inr (dists, indexs)"
      by blast
    from nearest_obj_valid[of x data ls kdtree k1 dists indexs, OF x assms(4) this]
    show "\<exists>r. nearest_obj kdtree data ls k1 x = Inr r" by blast
  qed
  from loop1_total[OF this, of "(Map.empty, Map.empty)"]
  obtain buff dic_knn where run: "labeled_nearest obj_subset data ls kdtree k1 = Inr (buff, dic_knn)"
    by (auto simp: labeled_nearest_def)
  from assms(5,6) have o: "obj < length data" by auto
  from q[of "data ! obj"] obtain dists indexs where
    k: "kdtree (data ! obj) (k1 + 1) = Inr (dists, indexs)"
    and ld: "length dists = nat (k1 + 1)" and li: "length indexs = nat (k1 + 1)"
    and s: "sorted dists" and d: "distinct indexs"
    by blast
  from loop1_in[OF run[unfolded labeled_nearest_def] assms(6)]
  obtain n nn where r: "nearest_obj kdtree data ls k1 obj = Inr (n, nn)" and dk: "dic_knn obj = Some nn"
    by blast
  from nearest_obj_Inr[OF r o] k have "nn = (tl dists, tl indexs)" by simp
  with dk have 1: "dic_knn obj = Some (tl dists, tl indexs)" by simp
  from li ld assms(2) have 2: "length (tl indexs) = nat k1" "length (tl dists) = nat k1"
    by simp_all
  from assms(2,3) have 3: "nat k1 = min (nat k1) (length data - 1)" by linarith
  from s have 4: "sorted (tl dists)" by (cases dists) simp_all
  from li assms(2) have ne: "indexs \<noteq> []" by auto
  with d have 5: "hd indexs = obj \<longrightarrow> obj \<notin> set (tl indexs)"
    by (cases indexs) auto
  from ne have 6: "obj \<in> set indexs \<and> hd indexs \<noteq> obj \<longrightarrow> obj \<in> set (tl indexs)"
    by (cases indexs) auto
  from run k 1 2 3 4 5 6 show ?thesis by blast
qed

section \<open>An index that pads\<close>

lemma padding_query_pads: "query_pads data (padding_query data)"
  unfolding query_pads_def
proof (intro allI impI)
  fix v :: vec and k :: int
  assume k: "1 \<le> k"
  define f where "f = (\<lambda>i. euclidean v (data ! i))"
  define order where "order = take (nat k) (sort_key f [0..<length data])"
  define missing where "missing = nat k - length data"
  have q: "padding_query data v k
             = Inr (map (\<lambda>i. Fin (f i)) order @ replicate missing PInf,
                    order @ replicate missing (length data))"
    using k by (simp add: padding_query_def order_def f_def missing_def Let_def)
  have lo: "length order = min (nat k) (length data)" by (simp add: order_def)
  then have len: "length order + missing = nat k" by (simp add: missing_def)
  have sub: "set order \<subseteq> {0..<length data}"
    using set_take_subset[of "nat k" "sort_key f [0..<length data]"] by (simp add: order_def)
  have nth: "\<forall>i<nat k. if i < length data
                then (order @ replicate missing (length data)) ! i < length data
                else (order @ replicate missing (length data)) ! i = length data
                     \<and> (map (\<lambda>i. Fin (f i)) order @ replicate missing PInf) ! i = PInf"
  proof (intro allI impI)
    fix i assume i: "i < nat k"
    show "if i < length data
                then (order @ replicate missing (length data)) ! i < length data
                else (order @ replicate missing (length data)) ! i = length data
                     \<and> (map (\<lambda>i. Fin (f i)) order @ replicate missing PInf) ! i = PInf"
    proof (cases "i < length data")
      case True
      with i lo have io: "i < length order" by simp
      then have "order ! i \<in> set order" by simp
      with sub have "order ! i < length data" by auto
      with True io show ?thesis by (simp add: nth_append)
    next
      case False
      with i lo have l: "length order = length data" by simp
      from False i have "i - length data < missing" by (simp add: missing_def)
      with False l show ?thesis by (simp add: nth_append)
    qed
  qed
  show "\<exists>dists indexs. padding_query data v k = Inr (dists, indexs)
           \<and> length dists = nat k \<and> length indexs = nat k
           \<and> (\<forall>i<nat k. if i < length data then indexs ! i < length data
                          else indexs ! i = length data \<and> dists ! i = PInf)"
    using q len nth by simp
qed

text \<open>The candidate loop ends with \<open>KeyError\<close> as soon as one entry other than the object
  itself has no neighbour list, provided every position has a distance.\<close>

lemma candidates_KeyError:
  assumes "\<forall>p \<in> set ps. fst p < length dists"
    and "\<exists>p \<in> set ps. snd p \<noteq> obj \<and> dic_knn (snd p) = None"
  shows "candidates obj dists buff dic_knn ps acc = Inl KeyError"
  using assms
proof (induction ps arbitrary: acc)
  case Nil
  then show ?case by simp
next
  case (Cons p rest)
  obtain i nn where p: "p = (i, nn)" by (cases p)
  obtain od oe where acc: "acc = (od, oe)" by (cases acc)
  from Cons.prems(1) have i: "i < length dists" and r1: "\<forall>p \<in> set rest. fst p < length dists"
    by (simp_all add: p)
  show ?case
  proof (cases "nn \<noteq> obj \<and> dic_knn nn = None")
    case True
    then show ?thesis by (auto simp: p acc)
  next
    case False
    with Cons.prems(2) have r2: "\<exists>p \<in> set rest. snd p \<noteq> obj \<and> dic_knn (snd p) = None"
      by (auto simp: p)
    note IH = Cons.IH[OF r1 r2]
    show ?thesis
    proof (cases "obj = nn")
      case True
      then show ?thesis using IH by (simp add: p acc)
    next
      case ne: False
      with False obtain nn_knn where k: "dic_knn nn = Some nn_knn" by auto
      show ?thesis
      proof (cases "buff nn")
        case None
        with ne k i show ?thesis using IH by (simp add: p acc)
      next
        case (Some b)
        obtain labeled d2 where b: "b = (labeled, d2)" by (cases b)
        from ne k i Some b show ?thesis using IH by (simp add: p acc Let_def)
      qed
    qed
  qed
qed

section \<open>The worked examples, evaluated\<close>

lemma argsort_stable_ok: "argsort_ok argsort_stable"
  by (simp add: argsort_ok_def argsort_stable_def)

lemma line6_gbili_012:
  "gbili argsort_stable [0, 1, 2] 1 line6_buff line6_knn
     = Inr [(0, 1, Fin (1 / 2)), (1, 0, Fin (1 / 2)), (2, 1, Fin (1 / 2))]"
  by (simp add: gbili_def gbili_obj_def line6_buff_def line6_knn_def argsort_stable_def
        slice_to_def upt_conv_Cons)

lemma line6_closed: "knn_closed line6_buff line6_knn [0, 1, 2]"
  by (simp add: knn_closed_def line6_buff_def line6_knn_def)

lemma line6_cands: "mutual_candidates line6_knn 1 = [(0, 0), (1, 2)]"
  by (simp add: mutual_candidates_def mutual_def line6_knn_def upt_conv_Cons)

lemma dup3_gbili:
  "gbili argsort_stable [0, 1, 2] 2 dup3_buff dup3_knn
     = Inr [(0, 2, Fin (1 / 6)), (1, 2, Fin (1 / 6)), (2, 0, Fin (1 / 6)), (2, 1, Fin (1 / 6))]"
  by (simp add: gbili_def gbili_obj_def dup3_buff_def dup3_knn_def argsort_stable_def
        slice_to_def upt_conv_Cons Let_def)

lemma line6_phase1:
  "labeled_nearest [0, 1, 2, 3, 4, 5] line6 [0, 4] (brute_query line6) 2
     = Inr (line6_buff, line6_knn)"
  by (simp add: labeled_nearest_def nearest_obj_def row_def brute_query_def line6_def
        line6_buff_def line6_knn_def upt_conv_Cons eval_nat_numeral)

lemma dup3_phase1:
  "labeled_nearest [0, 1, 2] dup3 [0] (brute_query dup3) 2 = Inr (dup3_buff, dup3_knn)"
  by (simp add: labeled_nearest_def nearest_obj_def row_def brute_query_def dup3_def
        dup3_buff_def dup3_knn_def upt_conv_Cons eval_nat_numeral)

lemma tri_phase1:
  "labeled_nearest [0, 1, 2] tri [2] (brute_query tri) 2 = Inr (tri_buff, tri_knn)"
  by (simp add: labeled_nearest_def nearest_obj_def row_def brute_query_def tri_def
        tri_buff_def tri_knn_def upt_conv_Cons eval_nat_numeral)

lemma tri_closed: "knn_closed tri_buff tri_knn [0, 1, 2]"
  by (simp add: knn_closed_def tri_buff_def tri_knn_def)

lemma tri_cands: "mutual_candidates tri_knn 0 = [(0, 1), (1, 2)]"
  by (simp add: mutual_candidates_def mutual_def tri_knn_def upt_conv_Cons)

lemma tri_gbili:
  "gbili argsort_stable [0, 1, 2] 1 tri_buff tri_knn
     = Inr [(0, 2, Fin (2 / 5)), (1, 0, Fin (1 / 2)), (2, 0, Fin (2 / 5))]"
  by (simp add: gbili_def gbili_obj_def tri_buff_def tri_knn_def argsort_stable_def
        slice_to_def upt_conv_Cons Let_def)

section \<open>Claims about phase 2\<close>

text \<open>Claim C1. Every edge \<open>(x, n, w)\<close> a phase 2 worker sends is mutual: \<open>n\<close> stands at some
  position \<open>i\<close> of the neighbour list of \<open>x\<close> and \<open>x\<close> is in the neighbour list of \<open>n\<close>; and
  its weight is \<open>1 / (1 + d)\<close> for the distance \<open>d\<close> recorded at position \<open>i\<close> of \<open>x\<close>'s list.
  No edge without these properties is sent.\<close>

theorem gbili_edges_mutual:
  assumes "gbili argsort obj_subset k2 buff dic_knn = Inr ew" and "(x, n, w) \<in> set ew"
  shows "\<exists>dists indexs n_knn i.
           dic_knn x = Some (dists, indexs) \<and> dic_knn n = Some n_knn \<and> x \<in> set (snd n_knn)
           \<and> i < length indexs \<and> indexs ! i = n \<and> i < length dists
           \<and> w = weight (dists ! i)
           \<and> (\<forall>d. dists ! i = Fin d \<and> 0 \<le> d \<longrightarrow> w = Fin (1 / (1 + d)))"
proof -
  from gbili_loop_edge[OF assms(1)[unfolded gbili_def] assms(2)]
  obtain obj dists indexs p where
    k: "dic_knn obj = Some (dists, indexs)" and p: "p \<in> set (zip [0..<length indexs] indexs)"
    and m: "mutual obj dic_knn p" and l: "fst p < length dists" and e: "(x, n, w) = edge_of obj dists p"
    by auto
  from e have x: "x = obj" and n: "n = snd p" and w: "w = weight (dists ! fst p)"
    by (simp_all add: edge_of_def)
  from p have i: "fst p < length indexs" "indexs ! fst p = snd p"
    by (auto simp: in_set_zip)
  from m obtain n_knn where nk: "dic_knn (snd p) = Some n_knn" "obj \<in> set (snd n_knn)"
    by (auto simp: mutual_def)
  have "\<forall>d. dists ! fst p = Fin d \<and> 0 \<le> d \<longrightarrow> w = Fin (1 / (1 + d))"
    by (auto simp: w)
  with k nk i l w show ?thesis unfolding x n by blast
qed

theorem gbili_edges_mutual_witness:
  "gbili argsort_stable [0, 1, 2] 1 line6_buff line6_knn
     = Inr [(0, 1, Fin (1 / 2)), (1, 0, Fin (1 / 2)), (2, 1, Fin (1 / 2))]
   \<and> (\<exists>dists indexs n_knn i.
         line6_knn 1 = Some (dists, indexs) \<and> line6_knn 0 = Some n_knn \<and> 1 \<in> set (snd n_knn)
         \<and> i < length indexs \<and> indexs ! i = 0 \<and> dists ! i = Fin 1
         \<and> Fin (1 / 2) = Fin (1 / (1 + 1)))"
proof -
  have mem: "(1, 0, Fin (1 / 2)) \<in> set [(0, 1, Fin (1 / 2)), (1, 0, Fin (1 / 2)), (2, 1, Fin (1 / 2))]"
    by simp
  from gbili_edges_mutual[OF line6_gbili_012 mem]
  obtain dists indexs n_knn i where
    k: "line6_knn 1 = Some (dists, indexs)" and n: "line6_knn 0 = Some n_knn"
    and m: "1 \<in> set (snd n_knn)" and i: "i < length indexs" "indexs ! i = 0"
    by blast
  from k have "dists = [Fin 1, Fin 1]" "indexs = [0, 2]"
    by (simp_all add: line6_knn_def)
  with i have "dists ! i = Fin 1" by (cases i) auto
  with k n m i line6_gbili_012 show ?thesis by auto
qed

text \<open>Claim C2. Let \<open>argsort\<close> rank ascending, \<open>k2\<close> be non-negative, the worker's objects be
  distinct and the dictionaries closed for them. Then the worker returns, and for each of
  its objects: every mutual candidate \<open>(i, nn)\<close> has the score \<open>d1 + d2\<close>, the sum of the
  distance \<open>d1\<close> at position \<open>i\<close> and of the distance \<open>d2\<close> of \<open>nn\<close> to its nearest labeled vertex
  (infinite when one of them is); the ranking is a permutation of the candidates' positions
  in ascending order of score; the edges sent with this object as source are those of the
  first \<open>k2\<close> candidates of the ranking, all of them when fewer than \<open>k2\<close> qualify; so there
  are at most \<open>k2\<close> of them.\<close>

theorem gbili_keeps_first_k2:
  assumes ok: "argsort_ok argsort" and k2: "0 \<le> k2" and d: "distinct obj_subset"
    and c: "knn_closed buff dic_knn obj_subset" and x: "obj \<in> set obj_subset"
  shows "\<exists>ew dists indexs.
     gbili argsort obj_subset k2 buff dic_knn = Inr ew \<and> dic_knn obj = Some (dists, indexs) \<and>
     (let cands = mutual_candidates dic_knn obj;
          scores = map (score dists buff) cands;
          ranking = argsort scores;
          emitted = filter (\<lambda>e. fst e = obj) ew
      in (\<forall>p \<in> set cands. \<exists>labeled d2. buff (snd p) = Some (labeled, d2)
              \<and> score dists buff p = fl_add (dists ! fst p) d2
              \<and> (\<forall>a b. dists ! fst p = Fin a \<and> d2 = Fin b
                     \<longrightarrow> score dists buff p = Fin (a + b))
              \<and> (dists ! fst p = PInf \<or> d2 = PInf \<longrightarrow> score dists buff p = PInf))
         \<and> distinct ranking \<and> set ranking = {0..<length cands}
         \<and> sorted (map ((!) scores) ranking)
         \<and> emitted = map (\<lambda>j. edge_of obj dists (cands ! j)) (take (nat k2) ranking)
         \<and> length emitted = min (nat k2) (length cands)
         \<and> int (length emitted) \<le> k2)"
proof -
  let ?ew = "concat (map (selected argsort k2 buff dic_knn) obj_subset)"
  have run: "gbili argsort obj_subset k2 buff dic_knn = Inr ?ew"
    using gbili_loop_total[OF ok c, of k2 "[]"] by (simp add: gbili_def)
  from c x obtain dists indexs where k: "dic_knn obj = Some (dists, indexs)"
    and nb: "\<forall>nn \<in> set indexs. nn \<noteq> obj \<longrightarrow> dic_knn nn \<noteq> None \<and> buff nn \<noteq> None"
    by (auto simp: knn_closed_def)
  let ?cands = "mutual_candidates dic_knn obj"
  let ?scores = "map (score dists buff) ?cands"
  let ?ranking = "argsort ?scores"
  have em: "filter (\<lambda>e. fst e = obj) ?ew = selected argsort k2 buff dic_knn obj"
    using filter_source_concat[OF d, of "selected argsort k2 buff dic_knn" obj] x
    by (simp add: selected_source)
  have sel: "selected argsort k2 buff dic_knn obj
             = map (\<lambda>j. edge_of obj dists (?cands ! j)) (take (nat k2) ?ranking)"
    using k2 by (simp add: selected_def k slice_to_def)
  have 1: "\<forall>p \<in> set ?cands. \<exists>labeled d2. buff (snd p) = Some (labeled, d2)
              \<and> score dists buff p = fl_add (dists ! fst p) d2
              \<and> (\<forall>a b. dists ! fst p = Fin a \<and> d2 = Fin b
                     \<longrightarrow> score dists buff p = Fin (a + b))
              \<and> (dists ! fst p = PInf \<or> d2 = PInf \<longrightarrow> score dists buff p = PInf)"
  proof
    fix p assume "p \<in> set ?cands"
    then have "p \<in> set (zip [0..<length indexs] indexs)" "snd p \<noteq> obj"
      by (simp_all add: mutual_candidates_def k mutual_def)
    then have "snd p \<in> set indexs" "snd p \<noteq> obj"
      by (metis prod.collapse set_zip_rightD, simp)
    with nb obtain labeled d2 where b: "buff (snd p) = Some (labeled, d2)" by fastforce
    then have s: "score dists buff p = fl_add (dists ! fst p) d2"
      by (simp add: score_def)
    have fin: "\<forall>a b. dists ! fst p = Fin a \<and> d2 = Fin b \<longrightarrow> score dists buff p = Fin (a + b)"
      by (simp add: s)
    have inf: "dists ! fst p = PInf \<or> d2 = PInf \<longrightarrow> score dists buff p = PInf"
      by (cases "dists ! fst p"; cases d2) (simp_all add: s)
    from b s fin inf
    show "\<exists>labeled d2. buff (snd p) = Some (labeled, d2)
              \<and> score dists buff p = fl_add (dists ! fst p) d2
              \<and> (\<forall>a b. dists ! fst p = Fin a \<and> d2 = Fin b
                     \<longrightarrow> score dists buff p = Fin (a + b))
              \<and> (dists ! fst p = PInf \<or> d2 = PInf \<longrightarrow> score dists buff p = PInf)"
      by blast
  qed
  from ok have 2: "distinct ?ranking" "set ?ranking = {0..<length ?cands}"
    "sorted (map ((!) ?scores) ?ranking)"
    by (simp_all add: argsort_ok_def)
  have len: "length ?ranking = length ?cands"
    using argsort_ok_length[OF ok, of ?scores] by simp
  have 3: "length (filter (\<lambda>e. fst e = obj) ?ew) = min (nat k2) (length ?cands)"
    by (simp add: em sel len min.commute)
  then have 4: "int (length (filter (\<lambda>e. fst e = obj) ?ew)) \<le> k2" using k2 by simp
  have 5: "filter (\<lambda>e. fst e = obj) ?ew
             = map (\<lambda>j. edge_of obj dists (?cands ! j)) (take (nat k2) ?ranking)"
    by (simp only: em sel)
  have "gbili argsort obj_subset k2 buff dic_knn = Inr ?ew \<and> dic_knn obj = Some (dists, indexs) \<and>
     (let cands = mutual_candidates dic_knn obj;
          scores = map (score dists buff) cands;
          ranking = argsort scores;
          emitted = filter (\<lambda>e. fst e = obj) ?ew
      in (\<forall>p \<in> set cands. \<exists>labeled d2. buff (snd p) = Some (labeled, d2)
              \<and> score dists buff p = fl_add (dists ! fst p) d2
              \<and> (\<forall>a b. dists ! fst p = Fin a \<and> d2 = Fin b
                     \<longrightarrow> score dists buff p = Fin (a + b))
              \<and> (dists ! fst p = PInf \<or> d2 = PInf \<longrightarrow> score dists buff p = PInf))
         \<and> distinct ranking \<and> set ranking = {0..<length cands}
         \<and> sorted (map ((!) scores) ranking)
         \<and> emitted = map (\<lambda>j. edge_of obj dists (cands ! j)) (take (nat k2) ranking)
         \<and> length emitted = min (nat k2) (length cands)
         \<and> int (length emitted) \<le> k2)"
    unfolding Let_def by (intro conjI run k 1 2 5 3 4)
  then show ?thesis by (intro exI)
qed

text \<open>In the example with the labeled neighbour farther away, \<open>k2 = 1\<close>: the candidates of
  object \<open>0\<close> are its neighbours \<open>1\<close> and \<open>2\<close>, with scores \<open>1 + 5/2\<close> and \<open>3/2 + 0\<close>, and the one
  edge kept goes to \<open>2\<close>.\<close>

theorem gbili_keeps_first_k2_witness:
  "argsort_ok argsort_stable \<and> (0::int) \<le> 1 \<and> distinct [0, 1, 2::nat]
   \<and> knn_closed tri_buff tri_knn [0, 1, 2] \<and> (0::nat) \<in> set [0, 1, 2]
   \<and> tri_knn 0 = Some ([Fin 1, Fin (3 / 2)], [1, 2])
   \<and> mutual_candidates tri_knn 0 = [(0, 1), (1, 2)]
   \<and> map (score [Fin 1, Fin (3 / 2)] tri_buff) [(0, 1), (1, 2)] = [Fin (7 / 2), Fin (3 / 2)]
   \<and> argsort_stable [Fin (7 / 2), Fin (3 / 2)] = [1, 0]
   \<and> (\<exists>ew. gbili argsort_stable [0, 1, 2] 1 tri_buff tri_knn = Inr ew
          \<and> filter (\<lambda>e. fst e = 0) ew = [(0, 2, Fin (2 / 5))]
          \<and> int (length (filter (\<lambda>e. fst e = 0) ew)) \<le> 1)"
proof -
  have h: "(0::int) \<le> 1" "distinct [0, 1, 2::nat]" "(0::nat) \<in> set [0, 1, 2]"
    by simp_all
  from gbili_keeps_first_k2[OF argsort_stable_ok h(1) h(2) tri_closed h(3)]
  obtain ew dists indexs where r: "gbili argsort_stable [0, 1, 2] 1 tri_buff tri_knn = Inr ew"
    and k: "tri_knn 0 = Some (dists, indexs)"
    and sc: "\<forall>p \<in> set (mutual_candidates tri_knn 0). \<exists>labeled d2.
               tri_buff (snd p) = Some (labeled, d2)
               \<and> score dists tri_buff p = fl_add (dists ! fst p) d2
               \<and> (\<forall>a b. dists ! fst p = Fin a \<and> d2 = Fin b
                      \<longrightarrow> score dists tri_buff p = Fin (a + b))
               \<and> (dists ! fst p = PInf \<or> d2 = PInf \<longrightarrow> score dists tri_buff p = PInf)"
    and l: "int (length (filter (\<lambda>e. fst e = 0) ew)) \<le> 1"
    unfolding Let_def by (elim exE conjE) (rule that)
  from k have dk: "dists = [Fin 1, Fin (3 / 2)]" and k': "tri_knn 0 = Some ([Fin 1, Fin (3 / 2)], [1, 2])"
    by (simp_all add: tri_knn_def)
  from sc have "score dists tri_buff (0, 1) = Fin (1 + 5 / 2)"
    "score dists tri_buff (1, 2) = Fin (3 / 2 + 0)"
    by (simp_all add: tri_cands dk tri_buff_def)
  then have s: "map (score [Fin 1, Fin (3 / 2)] tri_buff) [(0, 1), (1, 2)] = [Fin (7 / 2), Fin (3 / 2)]"
    by (simp add: dk)
  have a: "argsort_stable [Fin (7 / 2), Fin (3 / 2)] = [1, 0]"
    by (simp add: argsort_stable_def upt_conv_Cons)
  from r[unfolded tri_gbili]
  have "ew = [(0, 2, Fin (2 / 5)), (1, 0, Fin (1 / 2)), (2, 0, Fin (2 / 5))]"
    by simp
  then have "filter (\<lambda>e. fst e = 0) ew = [(0, 2, Fin (2 / 5))]" by simp
  with r l h argsort_stable_ok tri_closed tri_cands k' s a show ?thesis by blast
qed

text \<open>Claim C10. The candidate loop skips an entry equal to the object itself before any
  lookup for the mutuality check, whatever the dictionaries hold; so the two endpoints of
  every edge a phase 2 worker sends differ, also when the object stands in its own
  neighbour list.\<close>

theorem gbili_no_self_loop:
  "(\<forall>i rest acc. candidates obj dists buff dic_knn ((i, obj) # rest) acc
                    = candidates obj dists buff dic_knn rest acc)
   \<and> (\<forall>ew. gbili argsort obj_subset k2 buff dic_knn = Inr ew \<longrightarrow> (\<forall>(x, n, w) \<in> set ew. x \<noteq> n))"
proof (intro conjI allI impI)
  fix i rest and acc :: "fl list \<times> edge list"
  show "candidates obj dists buff dic_knn ((i, obj) # rest) acc
          = candidates obj dists buff dic_knn rest acc"
    by (cases acc) simp
next
  fix ew
  assume r: "gbili argsort obj_subset k2 buff dic_knn = Inr ew"
  show "\<forall>(x, n, w) \<in> set ew. x \<noteq> n"
  proof (clarify)
    fix n w assume "(n, n, w) \<in> set ew"
    from gbili_loop_edge[OF r[unfolded gbili_def] this]
    show False by (auto simp: mutual_def edge_of_def)
  qed
qed

theorem gbili_no_self_loop_witness:
  "dup3_knn 1 = Some ([Fin 0, Fin 5], [1, 2])
   \<and> gbili argsort_stable [0, 1, 2] 2 dup3_buff dup3_knn
       = Inr [(0, 2, Fin (1 / 6)), (1, 2, Fin (1 / 6)), (2, 0, Fin (1 / 6)), (2, 1, Fin (1 / 6))]
   \<and> (0::nat) \<noteq> 2 \<and> (1::nat) \<noteq> 2 \<and> (2::nat) \<noteq> 0 \<and> (2::nat) \<noteq> 1"
  using gbili_no_self_loop[of 1 "[Fin 0, Fin 5]" dup3_buff dup3_knn argsort_stable "[0, 1, 2]" 2]
    dup3_gbili
  by (simp add: dup3_knn_def)

section \<open>Claims about phase 1\<close>

text \<open>Claim C3, as amended. Let the labeled ids be object ids and the labeled set not be
  empty. For every object, the scan returns the labeled vertex at minimum Euclidean distance,
  the first such vertex in the order of the labeled set winning a tie, and that is the
  entry a phase 1 worker writes for the object. A labeled object is mapped to a labeled
  vertex at distance \<open>0\<close>: to itself, unless a labeled vertex at distance \<open>0\<close> stands before
  it in the labeled set.\<close>

theorem nearest_labeled_first_minimum:
  assumes "obj < length data" and "labels_valid data ls" and "ls \<noteq> []"
  shows "\<exists>j<length ls.
           scan_labeled data (data ! obj) ls (- 1, PInf)
             = Inr (ls ! j, Fin (euclidean (data ! obj) (data ! nat (ls ! j))))
           \<and> (\<forall>i<length ls. euclidean (data ! obj) (data ! nat (ls ! j))
                               \<le> euclidean (data ! obj) (data ! nat (ls ! i)))
           \<and> (\<forall>i<j. euclidean (data ! obj) (data ! nat (ls ! j))
                       < euclidean (data ! obj) (data ! nat (ls ! i)))
           \<and> (int obj \<in> set ls \<longrightarrow> euclidean (data ! obj) (data ! nat (ls ! j)) = 0)
           \<and> (\<forall>i<length ls. ls ! i = int obj
                  \<and> (\<forall>i'<i. euclidean (data ! obj) (data ! nat (ls ! i')) \<noteq> 0)
                  \<longrightarrow> ls ! j = int obj)
           \<and> (\<forall>obj_subset kdtree k1 buff dic_knn.
                  labeled_nearest obj_subset data ls kdtree k1 = Inr (buff, dic_knn)
                  \<and> obj \<in> set obj_subset
                  \<longrightarrow> buff obj = Some (ls ! j, Fin (euclidean (data ! obj) (data ! nat (ls ! j)))))"
proof -
  define d where "d = (\<lambda>l. euclidean (data ! obj) (data ! nat l))"
  from assms(2) have v: "\<forall>l \<in> set ls. 0 \<le> l \<and> l < int (length data)"
    by (simp add: labels_valid_def)
  from assms(3) have "Fin (d (hd ls)) < PInf" "hd ls \<in> set ls" by simp_all
  then have ne: "\<not> (\<forall>l \<in> set ls. \<not> Fin (d l) < PInf)" by blast
  from scan_labeled_valid[OF v, of "data ! obj" "- 1" PInf] ne
  obtain j where j: "j < length ls"
    and s: "scan_labeled data (data ! obj) ls (- 1, PInf) = Inr (ls ! j, Fin (d (ls ! j)))"
    and mn: "\<forall>i<length ls. Fin (d (ls ! j)) \<le> Fin (d (ls ! i))"
    and fs: "\<forall>i<j. Fin (d (ls ! j)) < Fin (d (ls ! i))"
    unfolding d_def by auto
  from mn have mn': "\<forall>i<length ls. d (ls ! j) \<le> d (ls ! i)" by simp
  from fs have fs': "\<forall>i<j. d (ls ! j) < d (ls ! i)" by simp
  have self: "int obj \<in> set ls \<longrightarrow> d (ls ! j) = 0"
  proof
    assume "int obj \<in> set ls"
    then obtain i where i: "i < length ls" "ls ! i = int obj" by (auto simp: in_set_conv_nth)
    then have "d (ls ! i) = 0" by (simp add: d_def euclidean_self)
    with mn' i(1) have "d (ls ! j) \<le> 0" by metis
    moreover have "0 \<le> d (ls ! j)" by (simp add: d_def euclidean_nonneg)
    ultimately show "d (ls ! j) = 0" by simp
  qed
  have first: "\<forall>i<length ls. ls ! i = int obj \<and> (\<forall>i'<i. d (ls ! i') \<noteq> 0) \<longrightarrow> ls ! j = int obj"
  proof (intro allI impI)
    fix i assume i: "i < length ls" and h: "ls ! i = int obj \<and> (\<forall>i'<i. d (ls ! i') \<noteq> 0)"
    from h have di: "d (ls ! i) = 0" by (simp add: d_def euclidean_self)
    from i h have "int obj \<in> set ls" by (metis nth_mem)
    with self have dj: "d (ls ! j) = 0" by simp
    have "\<not> j < i" using h dj by auto
    moreover have "\<not> i < j" using fs' di dj by fastforce
    ultimately have "i = j" by simp
    with h show "ls ! j = int obj" by simp
  qed
  have w: "\<forall>obj_subset kdtree k1 buff dic_knn.
                  labeled_nearest obj_subset data ls kdtree k1 = Inr (buff, dic_knn)
                  \<and> obj \<in> set obj_subset
                  \<longrightarrow> buff obj = Some (ls ! j, Fin (d (ls ! j)))"
  proof (intro allI impI)
    fix obj_subset kdtree k1 buff dic_knn
    assume a: "labeled_nearest obj_subset data ls kdtree k1 = Inr (buff, dic_knn)
                  \<and> obj \<in> set obj_subset"
    from loop1_in[OF a[THEN conjunct1, unfolded labeled_nearest_def] a[THEN conjunct2]]
    obtain n k where r: "nearest_obj kdtree data ls k1 obj = Inr (n, k)" and b: "buff obj = Some n"
      by blast
    from nearest_obj_Inr[OF r assms(1)] s have "n = (ls ! j, Fin (d (ls ! j)))" by simp
    with b show "buff obj = Some (ls ! j, Fin (d (ls ! j)))" by simp
  qed
  from j s mn' fs' self first w show ?thesis unfolding d_def by blast
qed

theorem nearest_labeled_first_minimum_witness:
  "(1::nat) < length line6 \<and> labels_valid line6 [0, 4] \<and> [0, 4::int] \<noteq> []
   \<and> scan_labeled line6 (line6 ! 1) [0, 4] (- 1, PInf) = Inr (0, Fin 1)"
proof -
  have h: "(1::nat) < length line6" "labels_valid line6 [0, 4]" "[0, 4::int] \<noteq> []"
    by (simp_all add: line6_def labels_valid_def)
  from nearest_labeled_first_minimum[OF h]
  have "\<exists>r. scan_labeled line6 (line6 ! 1) [0, 4] (- 1, PInf) = Inr r" by blast
  moreover have "scan_labeled line6 (line6 ! 1) [0, 4] (- 1, PInf) = Inr (0, Fin 1)"
    by (simp add: line6_def row_def)
  ultimately show ?thesis using h by simp
qed

text \<open>Claim C3 as stated fails: with the two labeled objects \<open>0\<close> and \<open>4\<close> of the example, the
  labeled object \<open>0\<close> is mapped to itself, at distance \<open>0\<close>.\<close>

theorem labeled_object_maps_to_itself_counterexample:
  "(2::nat) \<le> length [0, 4::int] \<and> (0::int) \<in> set [0, 4]
   \<and> labeled_nearest [0, 1, 2, 3, 4, 5] line6 [0, 4] (brute_query line6) 2
       = Inr (line6_buff, line6_knn)
   \<and> line6_buff 0 = Some (0, Fin 0)"
  using line6_phase1 by (simp add: line6_buff_def)

text \<open>Claim C4, at a failing input. When two objects \<open>a\<close> and \<open>b\<close> have the same feature vector,
  the index is asked the same question for both and gives the same answer, so both get the
  same neighbour list: the answer less its first result. Whichever of the two is not that
  first result is left in its own list, against the comment of line 59, which takes the
  dropped result to be the object itself. And when the first result is one of the two, no
  edge is ever sent between them, in either direction: the one dropped is in neither list.\<close>

theorem duplicate_object_kept_in_own_list:
  assumes same: "data ! a = data ! b" and ab: "a \<noteq> b"
    and a: "a < length data" and b: "b < length data"
    and run: "labeled_nearest obj_subset data ls kdtree k1 = Inr (buff, dic_knn)"
    and ia: "a \<in> set obj_subset" and ib: "b \<in> set obj_subset"
    and q: "kdtree (data ! a) (k1 + 1) = Inr (dists, indexs)"
    and dist: "distinct indexs" and ma: "a \<in> set indexs" and mb: "b \<in> set indexs"
  shows "dic_knn a = Some (tl dists, tl indexs) \<and> dic_knn b = Some (tl dists, tl indexs)
         \<and> (hd indexs \<noteq> a \<longrightarrow> a \<in> set (tl indexs))
         \<and> (hd indexs \<noteq> b \<longrightarrow> b \<in> set (tl indexs))
         \<and> (a \<in> set (tl indexs) \<or> b \<in> set (tl indexs))
         \<and> (hd indexs = a \<or> hd indexs = b \<longrightarrow>
               (\<forall>argsort subset k2 buff' ew w.
                   gbili argsort subset k2 buff' dic_knn = Inr ew
                   \<longrightarrow> (a, b, w) \<notin> set ew \<and> (b, a, w) \<notin> set ew))"
proof -
  from loop1_in[OF run[unfolded labeled_nearest_def] ia]
  obtain na ka where ra: "nearest_obj kdtree data ls k1 a = Inr (na, ka)"
    and da: "dic_knn a = Some ka"
    by blast
  from nearest_obj_Inr[OF ra a] q have ka: "ka = (tl dists, tl indexs)" by simp
  from loop1_in[OF run[unfolded labeled_nearest_def] ib]
  obtain nb kb where rb: "nearest_obj kdtree data ls k1 b = Inr (nb, kb)"
    and db: "dic_knn b = Some kb"
    by blast
  from nearest_obj_Inr[OF rb b] q same have kb: "kb = (tl dists, tl indexs)" by simp
  from da ka have 1: "dic_knn a = Some (tl dists, tl indexs)" by simp
  from db kb have 2: "dic_knn b = Some (tl dists, tl indexs)" by simp
  from ma obtain x xs where ix: "indexs = x # xs" by (cases indexs) auto
  from ma ix have 3: "hd indexs \<noteq> a \<longrightarrow> a \<in> set (tl indexs)" by auto
  from mb ix have 4: "hd indexs \<noteq> b \<longrightarrow> b \<in> set (tl indexs)" by auto
  from 3 4 ab have 5: "a \<in> set (tl indexs) \<or> b \<in> set (tl indexs)" by auto
  have 6: "hd indexs = a \<or> hd indexs = b \<longrightarrow>
               (\<forall>argsort subset k2 buff' ew w.
                   gbili argsort subset k2 buff' dic_knn = Inr ew
                   \<longrightarrow> (a, b, w) \<notin> set ew \<and> (b, a, w) \<notin> set ew)"
  proof (intro impI allI)
    fix argsort subset k2 buff' ew w
    assume h: "hd indexs = a \<or> hd indexs = b"
      and g: "gbili argsort subset k2 buff' dic_knn = Inr ew"
    from h dist ix have out: "a \<notin> set (tl indexs) \<or> b \<notin> set (tl indexs)" by auto
    have na: "(a, b, w) \<notin> set ew"
    proof
      assume "(a, b, w) \<in> set ew"
      from gbili_loop_edge[OF g[unfolded gbili_def] this]
      obtain ds ixs p where k: "dic_knn a = Some (ds, ixs)"
        and p: "p \<in> set (zip [0..<length ixs] ixs)" and m: "mutual a dic_knn p"
        and e: "(a, b, w) = edge_of a ds p"
        by (auto simp: edge_of_def)
      from e have sp: "snd p = b" by (simp add: edge_of_def)
      from k 1 have "ixs = tl indexs" by simp
      with p sp have "b \<in> set (tl indexs)" by (metis prod.collapse set_zip_rightD)
      moreover from m sp 2 have "a \<in> set (tl indexs)" by (auto simp: mutual_def)
      ultimately show False using out by simp
    qed
    have nb: "(b, a, w) \<notin> set ew"
    proof
      assume "(b, a, w) \<in> set ew"
      from gbili_loop_edge[OF g[unfolded gbili_def] this]
      obtain ds ixs p where k: "dic_knn b = Some (ds, ixs)"
        and p: "p \<in> set (zip [0..<length ixs] ixs)" and m: "mutual b dic_knn p"
        and e: "(b, a, w) = edge_of b ds p"
        by (auto simp: edge_of_def)
      from e have sp: "snd p = a" by (simp add: edge_of_def)
      from k 2 have "ixs = tl indexs" by simp
      with p sp have "a \<in> set (tl indexs)" by (metis prod.collapse set_zip_rightD)
      moreover from m sp 1 have "b \<in> set (tl indexs)" by (auto simp: mutual_def)
      ultimately show False using out by simp
    qed
    from na nb show "(a, b, w) \<notin> set ew \<and> (b, a, w) \<notin> set ew" ..
  qed
  from 1 2 3 4 5 6 show ?thesis by blast
qed

text \<open>In the example with two objects at the same place, an index that answers \<open>0, 1, 2\<close> for
  the shared vector leaves \<open>1\<close> in the list of object \<open>1\<close>; one that answers \<open>1, 0, 2\<close> leaves
  \<open>0\<close> in the list of object \<open>0\<close>. Either way the objects \<open>0\<close> and \<open>1\<close>, at distance \<open>0\<close> of
  each other, get no edge.\<close>

theorem duplicate_object_kept_in_own_list_witness:
  "dup3 ! 0 = dup3 ! 1 \<and> (0::nat) \<noteq> 1 \<and> 0 < length dup3 \<and> 1 < length dup3
   \<and> labeled_nearest [0, 1, 2] dup3 [0] (brute_query dup3) 2 = Inr (dup3_buff, dup3_knn)
   \<and> brute_query dup3 (dup3 ! 0) (2 + 1) = Inr ([Fin 0, Fin 0, Fin 5], [0, 1, 2])
   \<and> distinct [0, 1, 2::nat]
   \<and> dup3_knn 1 = Some ([Fin 0, Fin 5], [1, 2]) \<and> (1::nat) \<in> set [1, 2]
   \<and> gbili argsort_stable [0, 1, 2] 2 dup3_buff dup3_knn
       = Inr [(0, 2, Fin (1 / 6)), (1, 2, Fin (1 / 6)), (2, 0, Fin (1 / 6)), (2, 1, Fin (1 / 6))]"
proof -
  have h: "dup3 ! 0 = dup3 ! 1" "(0::nat) \<noteq> 1" "0 < length dup3" "1 < length dup3"
    by (simp_all add: dup3_def)
  have m: "(0::nat) \<in> set [0, 1, 2]" "(1::nat) \<in> set [0, 1, 2]" "distinct [0, 1, 2::nat]"
    by simp_all
  have q: "brute_query dup3 (dup3 ! 0) (2 + 1) = Inr ([Fin 0, Fin 0, Fin 5], [0, 1, 2])"
    by (simp add: brute_query_def dup3_def upt_conv_Cons eval_nat_numeral)
  from duplicate_object_kept_in_own_list[OF h dup3_phase1 m(1,2) q m(3) m(1,2)]
  have "dup3_knn 1 = Some (tl [Fin 0, Fin 0, Fin 5], tl [0, 1, 2])"
    and "hd [0, 1, 2] \<noteq> (1::nat) \<longrightarrow> (1::nat) \<in> set (tl [0, 1, 2])"
    by blast+
  then have "dup3_knn 1 = Some ([Fin 0, Fin 5], [1, 2])" "(1::nat) \<in> set [1, 2]"
    by simp_all
  with h m q dup3_phase1 dup3_gbili show ?thesis by simp
qed

text \<open>The same worker on the two objects at the same place, with an index that answers
  \<open>1, 0, 2\<close> for their vector: now it is object \<open>0\<close> that is left in its own list.\<close>

lemma dup3_other_first:
  "labeled_nearest [0, 1] dup3 [0] (\<lambda>v k. Inr ([Fin 0, Fin 0, Fin 5], [1, 0, 2])) 2
     = Inr ([0 \<mapsto> (0, Fin 0), 1 \<mapsto> (0, Fin 0)],
            [0 \<mapsto> ([Fin 0, Fin 5], [0, 2]), 1 \<mapsto> ([Fin 0, Fin 5], [0, 2])])"
  by (simp add: labeled_nearest_def nearest_obj_def row_def dup3_def)

section \<open>Claims about the main process\<close>

text \<open>Claim C5, as amended. Let \<open>k1 + 1 > N\<close>, the index pad as scipy's does,
  \<open>1 \<le> threads \<le> N\<close> and the labeled ids be object ids. Then the run produces no output, but
  no \<open>InsufficientDataError\<close> is raised and nothing fails before the workers are scheduled:
  the main process makes no check, the workers of phase 1 are started and all return, the
  workers of phase 2 are started, and one of them fails with \<open>KeyError\<close> when it looks up
  the padded index \<open>N\<close>, which has no neighbour list.\<close>

theorem small_dataset_fails_in_phase2:
  assumes small: "int (length data) < k1 + 1" and pads: "query_pads data kdtree"
    and t1: "1 \<le> threads" and t2: "threads \<le> int (length data)"
    and lv: "labels_valid data ls"
  shows "\<exists>chunks buff dic_knn.
           chunks_of (length data) threads = Inr chunks \<and> 1 \<le> length chunks
           \<and> phase1 kdtree data ls k1 chunks = Inr (buff, dic_knn)
           \<and> phase2 argsort k2 buff dic_knn chunks = Inl KeyError
           \<and> main argsort kdtree data ls k1 k2 threads
               = (2 * length chunks, WorkerFailed KeyError)"
proof -
  let ?N = "length data"
  from t1 t2 obtain chunks where c: "chunks_of ?N threads = Inr chunks"
    and cc: "concat chunks = [0..<?N]"
    by (rule chunks_of_valid)
  from t1 t2 have n: "0 < ?N" by linarith
  from cc n have "concat chunks \<noteq> []" by simp
  then have "chunks \<noteq> []" by auto
  then have lc: "1 \<le> length chunks" by (cases chunks) simp_all
  from small n have k: "1 \<le> k1 + 1" and nk: "?N < nat (k1 + 1)" by linarith+
  have q: "\<exists>dists indexs. kdtree v (k1 + 1) = Inr (dists, indexs)
             \<and> length dists = nat (k1 + 1) \<and> length indexs = nat (k1 + 1)
             \<and> (\<forall>i<nat (k1 + 1). if i < ?N then indexs ! i < ?N
                          else indexs ! i = ?N \<and> dists ! i = PInf)" for v
    using pads k unfolding query_pads_def by blast
  have "\<forall>x \<in> set [0..<?N]. \<exists>r. nearest_obj kdtree data ls k1 x = Inr r"
  proof
    fix x assume "x \<in> set [0..<?N]"
    then have x: "x < ?N" by simp
    from q[of "data ! x"] obtain dists indexs where
      "kdtree (data ! x) (k1 + 1) = Inr (dists, indexs)"
      by blast
    from nearest_obj_valid[of x data ls kdtree k1 dists indexs, OF x lv this]
    show "\<exists>r. nearest_obj kdtree data ls k1 x = Inr r" by blast
  qed
  from loop1_total[OF this, of "(Map.empty, Map.empty)"]
  obtain buff dic_knn where
    r: "labeled_nearest [0..<?N] data ls kdtree k1 = Inr (buff, dic_knn)"
    by (auto simp: labeled_nearest_def)
  from loop1_dom[OF r[unfolded labeled_nearest_def]]
  have dm: "dom dic_knn = {0..<?N}" by simp
  then have none: "dic_knn ?N = None" by (metis atLeastLessThan_iff domIff less_irrefl)
  from n have m0: "0 \<in> set [0..<?N]" by simp
  from loop1_in[OF r[unfolded labeled_nearest_def] m0]
  obtain n0 nn0 where r0: "nearest_obj kdtree data ls k1 0 = Inr (n0, nn0)"
    and d0: "dic_knn 0 = Some nn0"
    by blast
  from nearest_obj_Inr[OF r0 n] obtain dists indexs where
    k0: "kdtree (data ! 0) (k1 + 1) = Inr (dists, indexs)" and nn0: "nn0 = (tl dists, tl indexs)"
    by blast
  from q[of "data ! 0"] k0 have ld: "length dists = nat (k1 + 1)"
    and li: "length indexs = nat (k1 + 1)"
    and pd: "\<forall>i<nat (k1 + 1). if i < ?N then indexs ! i < ?N
                          else indexs ! i = ?N \<and> dists ! i = PInf"
    by auto
  let ?ps = "zip [0..<length (tl indexs)] (tl indexs)"
  have a1: "\<forall>p \<in> set ?ps. fst p < length (tl dists)"
  proof
    fix p assume "p \<in> set ?ps"
    then have "fst p < length (tl indexs)" by (auto simp: in_set_zip)
    with ld li show "fst p < length (tl dists)" by simp
  qed
  from pd nk have iN: "indexs ! ?N = ?N" by simp
  from li have "length (tl indexs) = nat (k1 + 1) - 1" by simp
  with nk n have lt: "?N - 1 < length (tl indexs)" by linarith
  have "tl indexs ! (?N - 1) = indexs ! ?N"
    using nth_tl[OF lt] n by simp
  with iN have tN: "tl indexs ! (?N - 1) = ?N" by simp
  from lt have "(?N - 1, tl indexs ! (?N - 1)) \<in> set ?ps"
    unfolding in_set_zip by (intro exI[of _ "?N - 1"]) simp
  with tN have "(?N - 1, ?N) \<in> set ?ps" by simp
  with n none have a2: "\<exists>p \<in> set ?ps. snd p \<noteq> 0 \<and> dic_knn (snd p) = None"
    by force
  from candidates_KeyError[OF a1 a2, of buff "([], [])"]
  have "gbili_obj argsort k2 buff dic_knn 0 [] = Inl KeyError"
    by (simp add: gbili_obj_def d0 nn0)
  moreover from n have "[0..<?N] = 0 # [1..<?N]" by (simp add: upt_conv_Cons)
  ultimately have g: "gbili argsort [0..<?N] k2 buff dic_knn = Inl KeyError"
    by (simp add: gbili_def)
  have p1: "phase1 kdtree data ls k1 chunks = Inr (buff, dic_knn)"
    using phase1_concat[OF cc] r by simp
  have p2: "phase2 argsort k2 buff dic_knn chunks = Inl KeyError"
    using phase2_concat[OF cc] g by simp
  have "main argsort kdtree data ls k1 k2 threads = (2 * length chunks, WorkerFailed KeyError)"
    by (simp add: main_def c p1 p2)
  with c lc p1 p2 show ?thesis by blast
qed

theorem small_dataset_fails_in_phase2_witness:
  "int (length two) < 2 + 1 \<and> query_pads two (padding_query two)
   \<and> (1::int) \<le> 2 \<and> 2 \<le> int (length two) \<and> labels_valid two [0]
   \<and> chunks_of (length two) 2 = Inr [[0], [1]]
   \<and> main argsort_stable (padding_query two) two [0] 2 1 2 = (4, WorkerFailed KeyError)"
proof -
  have h: "int (length two) < 2 + 1" "(1::int) \<le> 2" "2 \<le> int (length two)"
    "labels_valid two [0]"
    by (simp_all add: two_def labels_valid_def)
  have c: "chunks_of (length two) 2 = Inr [[0], [1]]"
    by (simp add: chunks_of_def xrange0_def slice_def two_def upt_conv_Cons)
  from small_dataset_fails_in_phase2[where argsort = argsort_stable and ?k2.0 = 1,
      OF h(1) padding_query_pads h(2,3,4)]
  obtain chunks where "chunks_of (length two) 2 = Inr chunks"
    and "main argsort_stable (padding_query two) two [0] 2 1 2
           = (2 * length chunks, WorkerFailed KeyError)"
    by blast
  with c have "main argsort_stable (padding_query two) two [0] 2 1 2 = (4, WorkerFailed KeyError)"
    by simp
  with h c padding_query_pads show ?thesis by simp
qed

text \<open>Claim C5 as stated fails: on two objects with \<open>k1 = 2\<close> and one worker, the worker of
  phase 1 returns the padded lists \<open>[1, 2]\<close> and \<open>[0, 2]\<close>, the worker of phase 2 is started too
  and fails on the index \<open>2\<close>; no \<open>InsufficientDataError\<close> is raised, and nothing is raised
  before the workers are scheduled.\<close>

theorem small_dataset_workers_started_counterexample:
  "int (length two) < 2 + 1
   \<and> phase1 (padding_query two) two [0] 2 [[0, 1]]
       = Inr ([0 \<mapsto> (0, Fin 0), 1 \<mapsto> (0, Fin 1)],
              [0 \<mapsto> ([Fin 1, PInf], [1, 2]), 1 \<mapsto> ([Fin 1, PInf], [0, 2])])
   \<and> main argsort_stable (padding_query two) two [0] 2 1 1 = (2, WorkerFailed KeyError)"
proof -
  have c: "chunks_of (length two) 1 = Inr [[0, 1]]"
    by (simp add: chunks_of_def xrange0_def slice_def two_def upt_conv_Cons)
  have p1: "phase1 (padding_query two) two [0] 2 [[0, 1]]
       = Inr ([0 \<mapsto> (0, Fin 0), 1 \<mapsto> (0, Fin 1)],
              [0 \<mapsto> ([Fin 1, PInf], [1, 2]), 1 \<mapsto> ([Fin 1, PInf], [0, 2])])"
    by (simp add: phase1_def labeled_nearest_def nearest_obj_def row_def padding_query_def
          two_def upt_conv_Cons eval_nat_numeral Let_def)
  have p2: "phase2 argsort_stable 1 [0 \<mapsto> (0, Fin 0), 1 \<mapsto> (0, Fin 1)]
              [0 \<mapsto> ([Fin 1, PInf], [1, 2]), 1 \<mapsto> ([Fin 1, PInf], [0, 2])] [[0, 1]]
            = Inl KeyError"
    by (simp add: phase2_def gbili_def gbili_obj_def upt_conv_Cons Let_def)
  have "main argsort_stable (padding_query two) two [0] 2 1 1
          = (2 * length [[0::nat, 1]], WorkerFailed KeyError)"
    by (simp only: main_def c p1 p2 sum.case prod.case)
  then have m: "main argsort_stable (padding_query two) two [0] 2 1 1 = (2, WorkerFailed KeyError)"
    by simp
  have "int (length two) < 2 + 1" by (simp add: two_def)
  with p1 m show ?thesis by (intro conjI)
qed

text \<open>Claim C6, at a failing input. For \<open>N = 7\<close> and \<open>3\<close> workers the program makes four
  chunks of size \<open>2, 2, 2, 1\<close>, not three chunks of size \<open>\<lceil>7 / 3\<rceil> = 3\<close>: the chunk size is
  \<open>N\<close> divided by the number of workers rounded down.\<close>

theorem chunks_of_seven_three:
  "chunks_of 7 3 = Inr [[0, 1], [2, 3], [4, 5], [6]]"
  by (simp add: chunks_of_def xrange0_def slice_def upt_conv_Cons)

text \<open>Claim C7. Let the index meet \<open>query_ok\<close>, \<open>1 \<le> k1\<close>, \<open>k1 + 1 \<le> N\<close>, the labeled ids be
  object ids and \<open>1 \<le> threads \<le> N\<close>. Then the chunks exist and list every object id of
  \<open>[0, N)\<close> exactly once, phase 1 returns, each of the two merged dictionaries has an entry
  for exactly the objects of \<open>[0, N)\<close>, and the merged dictionaries are the same for every
  other number of workers in that range.\<close>

theorem phase1_one_entry_per_object:
  assumes "query_ok data kdtree" and "1 \<le> k1" and "k1 + 1 \<le> int (length data)"
    and "labels_valid data ls" and "1 \<le> threads" and "threads \<le> int (length data)"
  shows "\<exists>chunks buff dic_knn.
           chunks_of (length data) threads = Inr chunks
           \<and> concat chunks = [0..<length data]
           \<and> phase1 kdtree data ls k1 chunks = Inr (buff, dic_knn)
           \<and> dom buff = {0..<length data} \<and> dom dic_knn = {0..<length data}
           \<and> (\<forall>threads'. 1 \<le> threads' \<and> threads' \<le> int (length data) \<longrightarrow>
                 (\<exists>chunks'. chunks_of (length data) threads' = Inr chunks'
                     \<and> phase1 kdtree data ls k1 chunks' = Inr (buff, dic_knn)))"
proof -
  from assms(5,6) obtain chunks where c: "chunks_of (length data) threads = Inr chunks"
    and cc: "concat chunks = [0..<length data]"
    by (rule chunks_of_valid)
  from labeled_nearest_returns[OF assms(1,2,3,4), of "[0..<length data]"]
  obtain buff dic_knn where
    r: "labeled_nearest [0..<length data] data ls kdtree k1 = Inr (buff, dic_knn)"
    by auto
  from loop1_dom[OF r[unfolded labeled_nearest_def]]
  have d: "dom buff = {0..<length data}" "dom dic_knn = {0..<length data}" by simp_all
  have p: "phase1 kdtree data ls k1 chunks = Inr (buff, dic_knn)"
    using phase1_concat[OF cc] r by simp
  have inv: "\<forall>threads'. 1 \<le> threads' \<and> threads' \<le> int (length data) \<longrightarrow>
                 (\<exists>chunks'. chunks_of (length data) threads' = Inr chunks'
                     \<and> phase1 kdtree data ls k1 chunks' = Inr (buff, dic_knn))"
  proof (intro allI impI)
    fix threads' assume t: "1 \<le> threads' \<and> threads' \<le> int (length data)"
    then obtain chunks' where c': "chunks_of (length data) threads' = Inr chunks'"
      and cc': "concat chunks' = [0..<length data]"
      by (metis chunks_of_valid)
    from phase1_concat[OF cc'] r c'
    show "\<exists>chunks'. chunks_of (length data) threads' = Inr chunks'
                     \<and> phase1 kdtree data ls k1 chunks' = Inr (buff, dic_knn)"
      by auto
  qed
  from c cc p d inv show ?thesis by blast
qed

theorem phase1_one_entry_per_object_witness:
  "query_ok line6 (brute_query line6) \<and> (1::int) \<le> 2 \<and> (2::int) + 1 \<le> int (length line6)
   \<and> labels_valid line6 [0, 4] \<and> (1::int) \<le> 2 \<and> (2::int) \<le> int (length line6)
   \<and> chunks_of (length line6) 2 = Inr [[0, 1, 2], [3, 4, 5]]
   \<and> phase1 (brute_query line6) line6 [0, 4] 2 [[0, 1, 2], [3, 4, 5]]
       = Inr (line6_buff, line6_knn)"
proof -
  have h: "(1::int) \<le> 2" "(2::int) + 1 \<le> int (length line6)" "labels_valid line6 [0, 4]"
    "(1::int) \<le> 2" "(2::int) \<le> int (length line6)"
    by (simp_all add: line6_def labels_valid_def)
  have c: "chunks_of (length line6) 2 = Inr [[0, 1, 2], [3, 4, 5]]"
    by (simp add: chunks_of_def xrange0_def slice_def line6_def upt_conv_Cons)
  from phase1_one_entry_per_object[OF brute_query_ok h]
  obtain chunks buff dic_knn where
    1: "chunks_of (length line6) 2 = Inr chunks"
    and 2: "concat chunks = [0..<length line6]"
    and 3: "phase1 (brute_query line6) line6 [0, 4] 2 chunks = Inr (buff, dic_knn)"
    by blast
  from 1 c have ch: "chunks = [[0, 1, 2], [3, 4, 5]]" by simp
  have "[0..<length line6] = [0, 1, 2, 3, 4, 5]"
    by (simp add: line6_def upt_conv_Cons eval_nat_numeral)
  with phase1_concat[OF 2, of "brute_query line6" line6 "[0, 4]" 2] line6_phase1
  have "phase1 (brute_query line6) line6 [0, 4] 2 chunks = Inr (line6_buff, line6_knn)"
    by simp
  with ch c h brute_query_ok show ?thesis by simp
qed

text \<open>Claim C8, as amended. A worker count of \<open>0\<close> or above \<open>N\<close> makes the run fail before
  any worker is started: the division raises \<open>ZeroDivisionError\<close> for \<open>0\<close>, and the zero step
  of the range raises \<open>ValueError\<close> for a count above \<open>N\<close>.\<close>

theorem bad_worker_count_raises_before_workers:
  "(threads = 0 \<longrightarrow>
      main argsort kdtree data ls k1 k2 threads = (0, Raised ZeroDivisionError))
   \<and> (int (length data) < threads \<longrightarrow>
      main argsort kdtree data ls k1 k2 threads = (0, Raised ValueError))"
proof (intro conjI impI)
  assume "threads = 0"
  then show "main argsort kdtree data ls k1 k2 threads = (0, Raised ZeroDivisionError)"
    by (simp add: main_def chunks_of_def)
next
  assume t: "int (length data) < threads"
  then have "int (length data) div threads = 0" by (simp add: div_pos_pos_trivial)
  with t show "main argsort kdtree data ls k1 k2 threads = (0, Raised ValueError)"
    by (auto simp: main_def chunks_of_def xrange0_def)
qed

theorem bad_worker_count_raises_before_workers_witness:
  "main argsort_stable (brute_query line6) line6 [0, 4] 2 1 0 = (0, Raised ZeroDivisionError)
   \<and> int (length line6) < 7
   \<and> main argsort_stable (brute_query line6) line6 [0, 4] 2 1 7 = (0, Raised ValueError)"
  using bad_worker_count_raises_before_workers[where threads = 0 and argsort = argsort_stable
      and kdtree = "brute_query line6" and data = line6 and ls = "[0, 4]" and ?k1.0 = 2 and ?k2.0 = 1]
    bad_worker_count_raises_before_workers[where threads = 7 and argsort = argsort_stable
      and kdtree = "brute_query line6" and data = line6 and ls = "[0, 4]" and ?k1.0 = 2 and ?k2.0 = 1]
  by (simp add: line6_def)

text \<open>Claim C8 as stated fails: a negative worker count is not refused. The chunk size is
  negative, the range of chunk starts is empty, no worker is started, and the run ends
  with an empty edge list.\<close>

theorem negative_worker_count_counterexample:
  "(- 2::int) \<le> 0
   \<and> main argsort_stable (brute_query line6) line6 [0, 4] 2 1 (- 2) = (0, Done [])"
  by (simp add: main_def chunks_of_def xrange0_def phase1_def phase2_def line6_def)

text \<open>Claim C9. For any two worker counts between \<open>1\<close> and \<open>N\<close>, in particular \<open>1\<close> and \<open>N\<close>, two
  runs on the same table, labeled set, \<open>k1\<close> and \<open>k2\<close> end alike: with the same edges, in the
  same order and with the same weights, or with the same failure. The order of equal
  scores is the one \<open>argsort\<close> gives, a function of the scores alone.\<close>

theorem main_independent_of_threads:
  assumes "1 \<le> t1" and "t1 \<le> int (length data)" and "1 \<le> t2" and "t2 \<le> int (length data)"
  shows "snd (main argsort kdtree data ls k1 k2 t1) = snd (main argsort kdtree data ls k1 k2 t2)"
  by (simp add: main_valid[OF assms(1,2)] main_valid[OF assms(3,4)])

theorem main_independent_of_threads_witness:
  "(1::int) \<le> 1 \<and> (1::int) \<le> int (length line6) \<and> (1::int) \<le> 6 \<and> (6::int) \<le> int (length line6)
   \<and> snd (main argsort_stable (brute_query line6) line6 [0, 4] 2 1 1)
       = snd (main argsort_stable (brute_query line6) line6 [0, 4] 2 1 6)
   \<and> snd (main argsort_stable (brute_query line6) line6 [0, 4] 2 1 6)
       = Done [(0, 1, Fin (1 / 2)), (1, 0, Fin (1 / 2)), (2, 1, Fin (1 / 2)),
               (3, 2, Fin (1 / 2)), (4, 5, Fin (1 / 2)), (5, 4, Fin (1 / 2))]"
proof -
  have h: "(1::int) \<le> 1" "(1::int) \<le> int (length line6)" "(1::int) \<le> 6"
    "(6::int) \<le> int (length line6)"
    by (simp_all add: line6_def)
  have "snd (main argsort_stable (brute_query line6) line6 [0, 4] 2 1 1)
       = Done [(0, 1, Fin (1 / 2)), (1, 0, Fin (1 / 2)), (2, 1, Fin (1 / 2)),
               (3, 2, Fin (1 / 2)), (4, 5, Fin (1 / 2)), (5, 4, Fin (1 / 2))]"
    by (simp add: main_def chunks_of_def xrange0_def slice_def phase1_def phase2_def
          labeled_nearest_def nearest_obj_def row_def brute_query_def line6_def gbili_def
          gbili_obj_def argsort_stable_def slice_to_def upt_conv_Cons)
  with main_independent_of_threads[where argsort = argsort_stable and kdtree = "brute_query line6"
      and ls = "[0, 4]" and ?k1.0 = 2 and ?k2.0 = 1, OF h] h
  show ?thesis by simp
qed

end
